theory Spec2Isabelle
  imports Main "HOL-Library.Sublist"
begin

section \<open>Strings and path names\<close>

text \<open>
  Python strings are modelled as \<open>string\<close> (lists of 8-bit characters).  File names,
  extensions and registry identifiers are taken to be ASCII: \<open>str.lower\<close> and
  \<open>str.upper\<close> change the 26 letters and nothing else.
\<close>

definition lower_char :: "char \<Rightarrow> char" where
  "lower_char c =
     (case map_of (zip ''ABCDEFGHIJKLMNOPQRSTUVWXYZ'' ''abcdefghijklmnopqrstuvwxyz'') c of
        None \<Rightarrow> c | Some d \<Rightarrow> d)"

definition upper_char :: "char \<Rightarrow> char" where
  "upper_char c =
     (case map_of (zip ''abcdefghijklmnopqrstuvwxyz'' ''ABCDEFGHIJKLMNOPQRSTUVWXYZ'') c of
        None \<Rightarrow> c | Some d \<Rightarrow> d)"

definition lower :: "string \<Rightarrow> string" where
  "lower s = map lower_char s"

definition upper :: "string \<Rightarrow> string" where
  "upper s = map upper_char s"

text \<open>\<open>p in s\<close> on strings: \<open>p\<close> occurs in \<open>s\<close> as a contiguous block.\<close>

fun is_substr :: "string \<Rightarrow> string \<Rightarrow> bool" where
  "is_substr p [] = (p = [])"
| "is_substr p (c # s) = (prefix p (c # s) \<or> is_substr p s)"

text \<open>\<open>str(n)\<close> for a count \<open>n\<close>: its decimal digits.\<close>

definition digit_char :: "nat \<Rightarrow> char" where
  "digit_char d = ''0123456789'' ! d"

function str_nat :: "nat \<Rightarrow> string" where
  "str_nat n = (if n < 10 then [digit_char n] else str_nat (n div 10) @ [digit_char (n mod 10)])"
  by pat_completeness auto
termination
  by (relation "measure id") auto

declare str_nat.simps [simp del]

text \<open>
  \<open>pathlib\<close> (Python up to 3.13): with \<open>i = name.rfind('.')\<close>, the suffix is
  \<open>name[i:]\<close> and the stem \<open>name[:i]\<close> when \<open>0 < i < len(name) - 1\<close>; otherwise the
  suffix is empty and the stem is the whole name.
\<close>

definition rfind_dot :: "string \<Rightarrow> nat option" where
  "rfind_dot name =
     (let r = length (takeWhile (\<lambda>c. c \<noteq> CHR ''.'') (rev name))
      in if r = length name then None else Some (length name - r - 1))"

definition path_suffix :: "string \<Rightarrow> string" where
  "path_suffix name =
     (case rfind_dot name of
        None \<Rightarrow> []
      | Some i \<Rightarrow> if 0 < i \<and> i < length name - 1 then drop i name else [])"

definition path_stem :: "string \<Rightarrow> string" where
  "path_stem name =
     (case rfind_dot name of
        None \<Rightarrow> name
      | Some i \<Rightarrow> if 0 < i \<and> i < length name - 1 then take i name else name)"

text \<open>
  A path is the list of its components.  \<open>pjoin p s\<close> is \<open>p / s\<close> for a string \<open>s\<close>
  that is one component or empty (\<open>p / ""\<close> is \<open>p\<close>); strings holding a separator, and
  the names \<open>.\<close> and \<open>..\<close>, are outside the model.
\<close>

type_synonym path = "string list"

definition pjoin :: "path \<Rightarrow> string \<Rightarrow> path" where
  "pjoin p s = (if s = [] then p else p @ [s])"

definition path_name :: "path \<Rightarrow> string" where
  "path_name p = (if p = [] then [] else last p)"

section \<open>The file system\<close>

text \<open>
  What the two readers of the program see of a regular file: \<open>csv_table\<close> is the
  data frame \<open>pd.read_csv(file)\<close> row by row, every cell as \<open>astype(str)\<close> renders it
  (\<open>None\<close>: \<open>read_csv\<close> raises); \<open>pdf_pages\<close> is the text \<open>page.get_text()\<close> of every
  page of \<open>fitz.open(file)\<close> (\<open>None\<close>: opening raises; a page \<open>None\<close>: extracting that
  page raises).
\<close>

record content =
  csv_table :: "string list list option"
  pdf_pages :: "string option list option"

datatype entry = File content | Dir

text \<open>
  The file system is the list of its entries, each under its full path; a directory is
  listed in the order of this list.  Symbolic links are not modelled.
\<close>

type_synonym filesys = "(path \<times> entry) list"

datatype py_error =
    FileNotFoundError
  | NotADirectoryError
  | IsADirectoryError
  | FileExistsError
  | DirectoryNotEmpty
  | InvalidArgument
  | ShutilError
  | KeyError
  | ReError
  | ParserError
  | PdfError

definition path_exists :: "filesys \<Rightarrow> path \<Rightarrow> bool" where
  "path_exists fs p = (map_of fs p \<noteq> None)"

definition is_file :: "filesys \<Rightarrow> path \<Rightarrow> bool" where
  "is_file fs p = (case map_of fs p of Some (File c) \<Rightarrow> True | _ \<Rightarrow> False)"

definition is_dir :: "filesys \<Rightarrow> path \<Rightarrow> bool" where
  "is_dir fs p = (case map_of fs p of Some Dir \<Rightarrow> True | _ \<Rightarrow> False)"

definition children :: "filesys \<Rightarrow> path \<Rightarrow> path list" where
  "children fs p = filter (\<lambda>q. q \<noteq> [] \<and> butlast q = p) (map fst fs)"

definition iterdir :: "filesys \<Rightarrow> path \<Rightarrow> py_error + path list" where
  "iterdir fs p =
     (case map_of fs p of
        None \<Rightarrow> Inl FileNotFoundError
      | Some (File c) \<Rightarrow> Inl NotADirectoryError
      | Some Dir \<Rightarrow> Inr (children fs p))"

text \<open>\<open>Path.mkdir(parents=True)\<close>: missing parents are made first.\<close>

function mkdir_parents :: "filesys \<Rightarrow> path \<Rightarrow> py_error + filesys" where
  "mkdir_parents fs p =
     (case map_of fs p of
        Some e \<Rightarrow> Inl FileExistsError
      | None \<Rightarrow>
          if p = [] then Inl FileNotFoundError
          else (case map_of fs (butlast p) of
                  Some Dir \<Rightarrow> Inr (fs @ [(p, Dir)])
                | Some (File c) \<Rightarrow> Inl NotADirectoryError
                | None \<Rightarrow>
                    (case mkdir_parents fs (butlast p) of
                       Inl e \<Rightarrow> Inl e
                     | Inr fs' \<Rightarrow> Inr (fs' @ [(p, Dir)]))))"
  by pat_completeness auto
termination
  by (relation "measure (\<lambda>(fs, p). length p)") auto

declare mkdir_parents.simps [simp del]

text \<open>
  \<open>os.rename(src, dst)\<close> with the POSIX rules: renaming a path to itself does
  nothing; a file replaces a file; a directory replaces an empty directory; the entries
  below a renamed directory move with it.
\<close>

definition reprefix :: "path \<Rightarrow> path \<Rightarrow> path \<Rightarrow> path" where
  "reprefix src dst q = (if prefix src q then dst @ drop (length src) q else q)"

definition relocate :: "path \<Rightarrow> path \<Rightarrow> filesys \<Rightarrow> filesys" where
  "relocate src dst fs =
     map (\<lambda>(q, e). (reprefix src dst q, e)) (filter (\<lambda>(q, e). q \<noteq> dst) fs)"

definition os_rename :: "filesys \<Rightarrow> path \<Rightarrow> path \<Rightarrow> py_error + filesys" where
  "os_rename fs src dst =
     (case map_of fs src of
        None \<Rightarrow> Inl FileNotFoundError
      | Some e \<Rightarrow>
          if src = dst then Inr fs
          else if src = [] \<or> dst = [] then Inl InvalidArgument
          else (case map_of fs (butlast dst) of
                  None \<Rightarrow> Inl FileNotFoundError
                | Some (File c) \<Rightarrow> Inl NotADirectoryError
                | Some Dir \<Rightarrow>
                    (case e of
                       File c \<Rightarrow>
                         (case map_of fs dst of
                            Some Dir \<Rightarrow> Inl IsADirectoryError
                          | _ \<Rightarrow> Inr (relocate src dst fs))
                     | Dir \<Rightarrow>
                         if prefix src dst then Inl InvalidArgument
                         else (case map_of fs dst of
                                 Some (File c) \<Rightarrow> Inl NotADirectoryError
                               | Some Dir \<Rightarrow>
                                   if children fs dst \<noteq> [] then Inl DirectoryNotEmpty
                                   else Inr (relocate src dst fs)
                               | None \<Rightarrow> Inr (relocate src dst fs)))))"

text \<open>
  \<open>shutil.move(src, dst)\<close>: into \<open>dst\<close> when \<open>dst\<close> is a directory (an error when
  the name is taken there), onto \<open>dst\<close> otherwise.  Where \<open>os.rename\<close> fails, the copying
  fallback of \<open>shutil.move\<close> fails too (one file system, no links), so the error stands.
\<close>

definition shutil_move :: "filesys \<Rightarrow> path \<Rightarrow> path \<Rightarrow> py_error + filesys" where
  "shutil_move fs src dst =
     (if is_dir fs dst then
        (if src = dst then os_rename fs src dst
         else if path_exists fs (dst @ [path_name src]) then Inl ShutilError
         else os_rename fs src (dst @ [path_name src]))
      else os_rename fs src dst)"

section \<open>Program state, output and errors\<close>

text \<open>Every \<open>print\<close> of the program is an event of the output.\<close>

datatype event =
    LoadingJSON
  | CreatingFolder path
  | CategorizingFiles path
  | MovingFile path path
  | FileTypesFound "string list"
  | AssociatingFiles path
  | MatchesBankByFilename path string
  | MatchesAccountByFilename path string string
  | MatchesAccountByCSV path string string
  | MatchesAccountByPDF path string string
  | MovingToBankFolder path path
  | CheckingCSV path string
  | FoundInCSV string path
  | ErrorReadingCSV path
  | CheckingPDF path string
  | FoundInPDF string nat path
  | ErrorReadingPDF path
  | UpdatingSubfolderCounts path
  | RenamingFolder path string
  | InvalidPaths
  | Completed

record world =
  fsys :: filesys
  out :: "event list"

definition say :: "event \<Rightarrow> world \<Rightarrow> world" where
  "say m w = w\<lparr>out := out w @ [m]\<rparr>"

text \<open>
  A function that can raise returns \<open>Inl (e, w)\<close>: the exception and the state it left
  behind (files already moved stay moved).
\<close>

type_synonym 'a result = "(py_error \<times> world) + 'a"

section \<open>The registry\<close>

text \<open>
  \<open>bank.json\<close> as parsed: the banks in the order of the file, each key once.  A field is
  \<open>None\<close> when the key is missing from the object.
\<close>

record account =
  Account_ID :: "string option"
  Account_Name :: "string option"

record bank_data =
  Bank_ID :: "string option"
  Accounts :: "account list option"

type_synonym registry = "(string \<times> bank_data) list"

text \<open>
  \<open>re.search(pattern, s)\<close>.  A pattern without metacharacters matches exactly where it
  occurs in \<open>s\<close>.  What the \<open>re\<close> module does with any other pattern is the parameter
  \<open>rx\<close>: \<open>rx pattern\<close> is \<open>None\<close> when the pattern does not compile (\<open>re.error\<close>), and
  otherwise the set of strings in which the pattern is found.
\<close>

type_synonym regex_engine = "string \<Rightarrow> (string \<Rightarrow> bool) option"

definition regex_meta :: "char list" where
  "regex_meta = [CHR ''.'', CHR ''^'', CHR ''$'', CHR ''*'', CHR ''+'', CHR ''?'', CHR ''{'',
     CHR ''}'', CHR ''['', CHR '']'', CHR 0x5C, CHR ''|'', CHR ''('', CHR '')'']"

definition literal_pattern :: "string \<Rightarrow> bool" where
  "literal_pattern pat = list_all (\<lambda>c. c \<notin> set regex_meta) pat"

definition re_search :: "regex_engine \<Rightarrow> string \<Rightarrow> string \<Rightarrow> py_error + bool" where
  "re_search rx pat s =
     (if literal_pattern pat then Inr (is_substr pat s)
      else (case rx pat of None \<Rightarrow> Inl ReError | Some m \<Rightarrow> Inr (m s)))"

section \<open>organize.py\<close>

definition create_folder :: "world \<Rightarrow> path \<Rightarrow> world result" where
  "create_folder w p =
     (if path_exists (fsys w) p then Inr w
      else (let w1 = say (CreatingFolder p) w
            in case mkdir_parents (fsys w1) p of
                 Inl e \<Rightarrow> Inl (e, w1)
               | Inr fs' \<Rightarrow> Inr (w1\<lparr>fsys := fs'\<rparr>)))"

subsection \<open>categorize_files_by_type\<close>

text \<open>\<open>file_inventory\<close>: a dict keeps its keys in the order of their first insertion.\<close>

type_synonym inventory = "(string \<times> path list) list"

fun inventory_add :: "inventory \<Rightarrow> string \<Rightarrow> path \<Rightarrow> inventory" where
  "inventory_add [] ext file = [(ext, [file])]"
| "inventory_add ((k, fs) # groups) ext file =
     (if k = ext then (k, fs @ [file]) # groups else (k, fs) # inventory_add groups ext file)"

fun build_inventory :: "filesys \<Rightarrow> path list \<Rightarrow> inventory \<Rightarrow> inventory" where
  "build_inventory fs [] groups = groups"
| "build_inventory fs (file # files) groups =
     build_inventory fs files
       (if is_file fs file then inventory_add groups (lower (path_suffix (path_name file))) file
        else groups)"

definition type_folder_name :: "string \<Rightarrow> nat \<Rightarrow> string" where
  "type_folder_name ext n = upper (drop 1 ext) @ ''_'' @ str_nat n"

fun move_files :: "world \<Rightarrow> path list \<Rightarrow> path \<Rightarrow> world result" where
  "move_files w [] type_folder = Inr w"
| "move_files w (file # files) type_folder =
     (let w1 = say (MovingFile file type_folder) w
      in case shutil_move (fsys w1) file type_folder of
           Inl e \<Rightarrow> Inl (e, w1)
         | Inr fs' \<Rightarrow> move_files (w1\<lparr>fsys := fs'\<rparr>) files type_folder)"

fun move_groups :: "world \<Rightarrow> path \<Rightarrow> inventory \<Rightarrow> world result" where
  "move_groups w base_path [] = Inr w"
| "move_groups w base_path ((ext, files) # groups) =
     (let type_folder = pjoin base_path (type_folder_name ext (length files))
      in case create_folder w type_folder of
           Inl e \<Rightarrow> Inl e
         | Inr w1 \<Rightarrow>
             (case move_files w1 files type_folder of
                Inl e \<Rightarrow> Inl e
              | Inr w2 \<Rightarrow> move_groups w2 base_path groups))"

definition categorize_files_by_type :: "world \<Rightarrow> path \<Rightarrow> (world \<times> string list) result" where
  "categorize_files_by_type w base_path =
     (let w0 = say (CategorizingFiles base_path) w
      in case iterdir (fsys w0) base_path of
           Inl e \<Rightarrow> Inl (e, w0)
         | Inr listing \<Rightarrow>
             (let file_inventory = build_inventory (fsys w0) listing []
              in case move_groups w0 base_path file_inventory of
                   Inl e \<Rightarrow> Inl e
                 | Inr w1 \<Rightarrow>
                     Inr (say (FileTypesFound (map fst file_inventory)) w1,
                          map fst file_inventory)))"

subsection \<open>Content checks\<close>

definition read_csv :: "filesys \<Rightarrow> path \<Rightarrow> string list list option" where
  "read_csv fs file = (case map_of fs file of Some (File c) \<Rightarrow> csv_table c | _ \<Rightarrow> None)"

text \<open>
  \<open>row.astype(str).str.contains(account_id).any()\<close>, and the same over the rows: every
  cell is searched (no short cut), so an exception in any of them is raised.
\<close>

fun cells_contain :: "regex_engine \<Rightarrow> string \<Rightarrow> string list \<Rightarrow> py_error + bool" where
  "cells_contain rx pat [] = Inr False"
| "cells_contain rx pat (cell # cells) =
     (case re_search rx pat cell of
        Inl e \<Rightarrow> Inl e
      | Inr b \<Rightarrow>
          (case cells_contain rx pat cells of
             Inl e \<Rightarrow> Inl e
           | Inr b' \<Rightarrow> Inr (b \<or> b')))"

fun rows_contain :: "regex_engine \<Rightarrow> string \<Rightarrow> string list list \<Rightarrow> py_error + bool" where
  "rows_contain rx pat [] = Inr False"
| "rows_contain rx pat (row # rows) =
     (case cells_contain rx pat row of
        Inl e \<Rightarrow> Inl e
      | Inr b \<Rightarrow>
          (case rows_contain rx pat rows of
             Inl e \<Rightarrow> Inl e
           | Inr b' \<Rightarrow> Inr (b \<or> b')))"

text \<open>The body of the \<open>try\<close>, then the function with its \<open>except Exception\<close>.\<close>

definition csv_lookup :: "regex_engine \<Rightarrow> filesys \<Rightarrow> path \<Rightarrow> string \<Rightarrow> py_error + bool" where
  "csv_lookup rx fs file account_id =
     (case read_csv fs file of
        None \<Rightarrow> Inl ParserError
      | Some rows \<Rightarrow> rows_contain rx account_id rows)"

definition check_csv_for_account_id ::
  "regex_engine \<Rightarrow> world \<Rightarrow> path \<Rightarrow> string \<Rightarrow> world \<times> bool" where
  "check_csv_for_account_id rx w file account_id =
     (let w1 = say (CheckingCSV file account_id) w
      in case csv_lookup rx (fsys w1) file account_id of
           Inl e \<Rightarrow> (say (ErrorReadingCSV file) w1, False)
         | Inr True \<Rightarrow> (say (FoundInCSV account_id file) w1, True)
         | Inr False \<Rightarrow> (w1, False))"

definition open_pdf :: "filesys \<Rightarrow> path \<Rightarrow> string option list option" where
  "open_pdf fs file = (case map_of fs file of Some (File c) \<Rightarrow> pdf_pages c | _ \<Rightarrow> None)"

text \<open>The loop over the pages, numbered from \<open>page_number\<close>: the page of the first hit.\<close>

fun scan_pages :: "string \<Rightarrow> nat \<Rightarrow> string option list \<Rightarrow> py_error + nat option" where
  "scan_pages account_id page_number [] = Inr None"
| "scan_pages account_id page_number (None # pages) = Inl PdfError"
| "scan_pages account_id page_number (Some text # pages) =
     (if is_substr account_id text then Inr (Some page_number)
      else scan_pages account_id (Suc page_number) pages)"

definition pdf_lookup :: "filesys \<Rightarrow> path \<Rightarrow> string \<Rightarrow> py_error + nat option" where
  "pdf_lookup fs file account_id =
     (case open_pdf fs file of
        None \<Rightarrow> Inl PdfError
      | Some pages \<Rightarrow> scan_pages account_id 1 pages)"

definition check_pdf_for_account_id :: "world \<Rightarrow> path \<Rightarrow> string \<Rightarrow> world \<times> bool" where
  "check_pdf_for_account_id w file account_id =
     (let w1 = say (CheckingPDF file account_id) w
      in case pdf_lookup (fsys w1) file account_id of
           Inl e \<Rightarrow> (say (ErrorReadingPDF file) w1, False)
         | Inr (Some page_number) \<Rightarrow> (say (FoundInPDF account_id page_number file) w1, True)
         | Inr None \<Rightarrow> (w1, False))"

subsection \<open>associate_files_with_sources\<close>

definition move_to_bank_folder :: "world \<Rightarrow> path \<Rightarrow> path \<Rightarrow> string \<Rightarrow> world result" where
  "move_to_bank_folder w type_folder file bank =
     (let bank_folder = pjoin type_folder bank
      in case create_folder w bank_folder of
           Inl e \<Rightarrow> Inl e
         | Inr w1 \<Rightarrow>
             (let w2 = say (MovingToBankFolder file bank_folder) w1
              in case shutil_move (fsys w2) file bank_folder of
                   Inl e \<Rightarrow> Inl (e, w2)
                 | Inr fs' \<Rightarrow> Inr (w2\<lparr>fsys := fs'\<rparr>)))"

text \<open>\<open>d.get(key, "")\<close> and \<open>d.get(key, [])\<close>.\<close>

definition get_str :: "string option \<Rightarrow> string" where
  "get_str v = (case v of None \<Rightarrow> [] | Some s \<Rightarrow> s)"

definition get_accounts :: "account list option \<Rightarrow> account list" where
  "get_accounts v = (case v of None \<Rightarrow> [] | Some accounts \<Rightarrow> accounts)"

text \<open>
  The three loops over the accounts of one bank.  Each returns the state and the flag
  \<open>associated\<close>.  \<open>account['Account_Name']\<close> in the message and \<open>account["Account_ID"]\<close> in
  the content loops raise \<open>KeyError\<close> on a missing key.
\<close>

fun accounts_by_filename ::
  "regex_engine \<Rightarrow> world \<Rightarrow> path \<Rightarrow> path \<Rightarrow> string \<Rightarrow> account list \<Rightarrow> (world \<times> bool) result" where
  "accounts_by_filename rx w type_folder file bank [] = Inr (w, False)"
| "accounts_by_filename rx w type_folder file bank (account # accounts) =
     (case re_search rx (get_str (Account_ID account)) (path_name file) of
        Inl e \<Rightarrow> Inl (e, w)
      | Inr True \<Rightarrow>
          (case Account_Name account of
             None \<Rightarrow> Inl (KeyError, w)
           | Some account_name \<Rightarrow>
               (case move_to_bank_folder (say (MatchesAccountByFilename file account_name bank) w)
                       type_folder file bank of
                  Inl e \<Rightarrow> Inl e
                | Inr w' \<Rightarrow> Inr (w', True)))
      | Inr False \<Rightarrow> accounts_by_filename rx w type_folder file bank accounts)"

fun accounts_by_csv ::
  "regex_engine \<Rightarrow> world \<Rightarrow> path \<Rightarrow> path \<Rightarrow> string \<Rightarrow> account list \<Rightarrow> (world \<times> bool) result" where
  "accounts_by_csv rx w type_folder file bank [] = Inr (w, False)"
| "accounts_by_csv rx w type_folder file bank (account # accounts) =
     (case Account_ID account of
        None \<Rightarrow> Inl (KeyError, w)
      | Some account_id \<Rightarrow>
          (case check_csv_for_account_id rx w file account_id of
             (w1, True) \<Rightarrow>
               (case Account_Name account of
                  None \<Rightarrow> Inl (KeyError, w1)
                | Some account_name \<Rightarrow>
                    (case move_to_bank_folder (say (MatchesAccountByCSV file account_name bank) w1)
                            type_folder file bank of
                       Inl e \<Rightarrow> Inl e
                     | Inr w' \<Rightarrow> Inr (w', True)))
           | (w1, False) \<Rightarrow> accounts_by_csv rx w1 type_folder file bank accounts))"

fun accounts_by_pdf ::
  "world \<Rightarrow> path \<Rightarrow> path \<Rightarrow> string \<Rightarrow> account list \<Rightarrow> (world \<times> bool) result" where
  "accounts_by_pdf w type_folder file bank [] = Inr (w, False)"
| "accounts_by_pdf w type_folder file bank (account # accounts) =
     (case Account_ID account of
        None \<Rightarrow> Inl (KeyError, w)
      | Some account_id \<Rightarrow>
          (case check_pdf_for_account_id w file account_id of
             (w1, True) \<Rightarrow>
               (case Account_Name account of
                  None \<Rightarrow> Inl (KeyError, w1)
                | Some account_name \<Rightarrow>
                    (case move_to_bank_folder (say (MatchesAccountByPDF file account_name bank) w1)
                            type_folder file bank of
                       Inl e \<Rightarrow> Inl e
                     | Inr w' \<Rightarrow> Inr (w', True)))
           | (w1, False) \<Rightarrow> accounts_by_pdf w1 type_folder file bank accounts))"

text \<open>The content checks of one bank, by the suffix of the file (\<open>if not associated\<close>).\<close>

definition accounts_by_content ::
  "regex_engine \<Rightarrow> world \<Rightarrow> path \<Rightarrow> path \<Rightarrow> string \<Rightarrow> account list \<Rightarrow> (world \<times> bool) result" where
  "accounts_by_content rx w type_folder file bank accounts =
     (if lower (path_suffix (path_name file)) = ''.csv''
      then accounts_by_csv rx w type_folder file bank accounts
      else if lower (path_suffix (path_name file)) = ''.pdf''
      then accounts_by_pdf w type_folder file bank accounts
      else Inr (w, False))"

text \<open>The body of the loop over the banks, for one bank.\<close>

definition bank_name_or_id :: "regex_engine \<Rightarrow> string \<Rightarrow> bank_data \<Rightarrow> string \<Rightarrow> py_error + bool" where
  "bank_name_or_id rx bank data name =
     (if is_substr bank name then Inr True else re_search rx (get_str (Bank_ID data)) name)"

definition associate_with_bank ::
  "regex_engine \<Rightarrow> world \<Rightarrow> path \<Rightarrow> path \<Rightarrow> string \<Rightarrow> bank_data \<Rightarrow> (world \<times> bool) result" where
  "associate_with_bank rx w type_folder file bank data =
     (case bank_name_or_id rx bank data (path_name file) of
        Inl e \<Rightarrow> Inl (e, w)
      | Inr True \<Rightarrow>
          (case move_to_bank_folder (say (MatchesBankByFilename file bank) w)
                  type_folder file bank of
             Inl e \<Rightarrow> Inl e
           | Inr w' \<Rightarrow> Inr (w', True))
      | Inr False \<Rightarrow>
          (case accounts_by_filename rx w type_folder file bank (get_accounts (Accounts data)) of
             Inl e \<Rightarrow> Inl e
           | Inr (w1, True) \<Rightarrow> Inr (w1, True)
           | Inr (w1, False) \<Rightarrow>
               accounts_by_content rx w1 type_folder file bank (get_accounts (Accounts data))))"

text \<open>The loop over the banks for one file: it ends at the first bank that associates.\<close>

fun associate_file ::
  "regex_engine \<Rightarrow> world \<Rightarrow> path \<Rightarrow> path \<Rightarrow> registry \<Rightarrow> (world \<times> bool) result" where
  "associate_file rx w type_folder file [] = Inr (w, False)"
| "associate_file rx w type_folder file ((bank, data) # json_data) =
     (case associate_with_bank rx w type_folder file bank data of
        Inl e \<Rightarrow> Inl e
      | Inr (w1, True) \<Rightarrow> Inr (w1, True)
      | Inr (w1, False) \<Rightarrow> associate_file rx w1 type_folder file json_data)"

text \<open>The loop over the files listed in the type folder.\<close>

fun associate_files ::
  "regex_engine \<Rightarrow> world \<Rightarrow> path \<Rightarrow> path list \<Rightarrow> registry \<Rightarrow> world result" where
  "associate_files rx w type_folder [] json_data = Inr w"
| "associate_files rx w type_folder (file # files) json_data =
     (case associate_file rx w type_folder file json_data of
        Inl e \<Rightarrow> Inl e
      | Inr (w1, associated) \<Rightarrow> associate_files rx w1 type_folder files json_data)"

subsection \<open>update_subfolder_counts\<close>

definition counted_name :: "string \<Rightarrow> nat \<Rightarrow> string" where
  "counted_name name n =
     takeWhile (\<lambda>c. c \<noteq> CHR ''_'') (path_stem name) @ ''_'' @ str_nat n"

fun rename_subfolders :: "world \<Rightarrow> path \<Rightarrow> path list \<Rightarrow> world result" where
  "rename_subfolders w type_folder [] = Inr w"
| "rename_subfolders w type_folder (subfolder # rest) =
     (if is_dir (fsys w) subfolder then
        (case iterdir (fsys w) subfolder of
           Inl e \<Rightarrow> Inl (e, w)
         | Inr inside \<Rightarrow>
             (let new_name = counted_name (path_name subfolder) (length inside);
                  w1 = say (RenamingFolder subfolder new_name) w
              in case os_rename (fsys w1) subfolder (pjoin type_folder new_name) of
                   Inl e \<Rightarrow> Inl (e, w1)
                 | Inr fs' \<Rightarrow> rename_subfolders (w1\<lparr>fsys := fs'\<rparr>) type_folder rest))
      else rename_subfolders w type_folder rest)"

definition update_subfolder_counts :: "world \<Rightarrow> path \<Rightarrow> world result" where
  "update_subfolder_counts w type_folder =
     (let w0 = say (UpdatingSubfolderCounts type_folder) w
      in case iterdir (fsys w0) type_folder of
           Inl e \<Rightarrow> Inl (e, w0)
         | Inr listing \<Rightarrow> rename_subfolders w0 type_folder listing)"

subsection \<open>The loop over the file types, and main\<close>

text \<open>
  The type folder of a file type: the directory \<open>base_path / EXT\<close> is listed and its
  length is put behind \<open>EXT_\<close>.
\<close>

definition resolve_type_folder :: "filesys \<Rightarrow> path \<Rightarrow> string \<Rightarrow> py_error + path" where
  "resolve_type_folder fs base_path file_type =
     (case iterdir fs (pjoin base_path (upper (drop 1 file_type))) of
        Inl e \<Rightarrow> Inl e
      | Inr listing \<Rightarrow>
          Inr (pjoin base_path (upper (drop 1 file_type) @ ''_'' @ str_nat (length listing))))"

fun associate_files_with_sources ::
  "regex_engine \<Rightarrow> world \<Rightarrow> path \<Rightarrow> string list \<Rightarrow> registry \<Rightarrow> world result" where
  "associate_files_with_sources rx w base_path [] json_data = Inr w"
| "associate_files_with_sources rx w base_path (file_type # file_types) json_data =
     (case resolve_type_folder (fsys w) base_path file_type of
        Inl e \<Rightarrow> Inl (e, w)
      | Inr type_folder \<Rightarrow>
          if \<not> path_exists (fsys w) type_folder
          then associate_files_with_sources rx w base_path file_types json_data
          else (let w1 = say (AssociatingFiles type_folder) w
                in case iterdir (fsys w1) type_folder of
                     Inl e \<Rightarrow> Inl (e, w1)
                   | Inr listing \<Rightarrow>
                       (case associate_files rx w1 type_folder listing json_data of
                          Inl e \<Rightarrow> Inl e
                        | Inr w2 \<Rightarrow>
                            (case update_subfolder_counts w2 type_folder of
                               Inl e \<Rightarrow> Inl e
                             | Inr w3 \<Rightarrow>
                                 associate_files_with_sources rx w3 base_path file_types
                                   json_data))))"

text \<open>
  \<open>main\<close>: \<open>folder_path\<close> is the path typed in, \<open>bank_json\<close> the parsed \<open>./bank.json\<close>
  (\<open>None\<close> when that file does not exist).
\<close>

definition main :: "regex_engine \<Rightarrow> world \<Rightarrow> path \<Rightarrow> registry option \<Rightarrow> world result" where
  "main rx w folder_path bank_json =
     (case bank_json of
        None \<Rightarrow> Inr (say InvalidPaths w)
      | Some json_data \<Rightarrow>
          if \<not> path_exists (fsys w) folder_path then Inr (say InvalidPaths w)
          else (case categorize_files_by_type (say LoadingJSON w) folder_path of
                  Inl e \<Rightarrow> Inl e
                | Inr (w1, file_types) \<Rightarrow>
                    (case associate_files_with_sources rx w1 folder_path file_types json_data of
                       Inl e \<Rightarrow> Inl e
                     | Inr w2 \<Rightarrow> Inr (say Completed w2))))"

section \<open>Notions of the specification\<close>

text \<open>The state after a content check that raised: the two lines it has printed.\<close>

definition csv_failed :: "world \<Rightarrow> path \<Rightarrow> string \<Rightarrow> world" where
  "csv_failed w file account_id =
     say (ErrorReadingCSV file) (say (CheckingCSV file account_id) w)"

definition pdf_failed :: "world \<Rightarrow> path \<Rightarrow> string \<Rightarrow> world" where
  "pdf_failed w file account_id =
     say (ErrorReadingPDF file) (say (CheckingPDF file account_id) w)"

text \<open>A file whose content the check for its suffix cannot read at all.\<close>

definition unreadable :: "filesys \<Rightarrow> path \<Rightarrow> bool" where
  "unreadable fs file =
     (lower (path_suffix (path_name file)) = ''.csv'' \<and> read_csv fs file = None
      \<or> lower (path_suffix (path_name file)) = ''.pdf'' \<and> open_pdf fs file = None)"

text \<open>The texts of the pages of a PDF up to the first page whose extraction raises.\<close>

fun extracted_texts :: "string option list \<Rightarrow> string list" where
  "extracted_texts [] = []"
| "extracted_texts (None # pages) = []"
| "extracted_texts (Some text # pages) = text # extracted_texts pages"








text \<open>What every match does: \<open>move_to_bank_folder\<close>, then \<open>associated = True\<close>.\<close>

definition moved_to :: "world \<Rightarrow> path \<Rightarrow> path \<Rightarrow> string \<Rightarrow> (world \<times> bool) result" where
  "moved_to w type_folder file bank =
     (case move_to_bank_folder w type_folder file bank of
        Inl e \<Rightarrow> Inl e
      | Inr w' \<Rightarrow> Inr (w', True))"

subsection \<open>Directories before and after categorization\<close>

text \<open>
  A well-formed file system: every path once, and every entry but the root lies in a
  directory.
\<close>

definition wf_fs :: "filesys \<Rightarrow> bool" where
  "wf_fs fs =
     (distinct (map fst fs)
      \<and> list_all (\<lambda>(q, e). q = [] \<or> map_of fs (butlast q) = Some Dir) fs)"

text \<open>
  Nothing below a path; nothing at or below a path.
\<close>

definition leaf :: "filesys \<Rightarrow> path \<Rightarrow> bool" where
  "leaf fs f = (\<forall>q. prefix f q \<longrightarrow> map_of fs q \<noteq> None \<longrightarrow> q = f)"

definition vacant :: "filesys \<Rightarrow> path \<Rightarrow> bool" where
  "vacant fs p = (\<forall>q. prefix p q \<longrightarrow> map_of fs q = None)"

text \<open>
  The type folder of a group of the inventory, as \<open>categorize_files_by_type\<close> names it.
\<close>

definition type_folder_path :: "path \<Rightarrow> string \<times> path list \<Rightarrow> path" where
  "type_folder_path base_path g = pjoin base_path (type_folder_name (fst g) (length (snd g)))"

text \<open>
  A regular file directly in the directory, with nothing below it.
\<close>

definition movable :: "filesys \<Rightarrow> path \<Rightarrow> path \<Rightarrow> bool" where
  "movable fs base f =
     (f \<noteq> [] \<and> butlast f = base \<and> (\<exists>c. map_of fs f = Some (File c)) \<and> leaf fs f)"

text \<open>
  The extension of a file as the categorizer computes it; the regular files of a
  directory with a given extension; the folder that extension gets; the extensions seen.
\<close>

definition ext_of :: "path \<Rightarrow> string" where
  "ext_of file = lower (path_suffix (path_name file))"

definition files_with_ext :: "filesys \<Rightarrow> path \<Rightarrow> string \<Rightarrow> path list" where
  "files_with_ext fs base_path ext =
     filter (\<lambda>f. is_file fs f \<and> ext_of f = ext) (children fs base_path)"

definition folder_of :: "filesys \<Rightarrow> path \<Rightarrow> string \<Rightarrow> path" where
  "folder_of fs base_path ext =
     base_path @ [type_folder_name ext (length (files_with_ext fs base_path ext))]"

definition exts_in :: "filesys \<Rightarrow> path \<Rightarrow> string set" where
  "exts_in fs base_path = set (map ext_of (filter (is_file fs) (children fs base_path)))"

text \<open>
  No two extensions get the same folder name, and no entry of the directory bears the
  name of a folder to be made.
\<close>

definition folders_free :: "filesys \<Rightarrow> path \<Rightarrow> bool" where
  "folders_free fs base_path =
     (inj_on (folder_of fs base_path) (exts_in fs base_path)
      \<and> (\<forall>e\<in>exts_in fs base_path. \<not> path_exists fs (folder_of fs base_path e)))"

text \<open>
  A file is filed: its type folder is a directory, the file is in it under its name,
  it is gone from the directory, and the folder holds as many entries as its name says.
\<close>

definition filed :: "filesys \<Rightarrow> filesys \<Rightarrow> path \<Rightarrow> path \<Rightarrow> bool" where
  "filed fs fs' base_path f =
     (is_dir fs' (folder_of fs base_path (ext_of f))
      \<and> map_of fs' (folder_of fs base_path (ext_of f) @ [path_name f]) = map_of fs f
      \<and> \<not> path_exists fs' f
      \<and> length (children fs' (folder_of fs base_path (ext_of f))) =
          length (files_with_ext fs base_path (ext_of f)))"

subsection \<open>Type folders before and after the count update\<close>

text \<open>
  The path a subfolder of a type folder is renamed to by \<open>update_subfolder_counts\<close>.
\<close>

definition counted_path :: "filesys \<Rightarrow> path \<Rightarrow> path \<Rightarrow> path" where
  "counted_path fs type_folder subfolder =
     type_folder @ [counted_name (path_name subfolder) (length (children fs subfolder))]"

text \<open>
  The new names of the subfolders of a type folder differ from each other, and no entry
  of the type folder bears one of them.
\<close>

definition names_free :: "filesys \<Rightarrow> path \<Rightarrow> bool" where
  "names_free fs type_folder =
     (distinct (map (counted_path fs type_folder) (filter (is_dir fs) (children fs type_folder)))
      \<and> list_all (\<lambda>s. \<not> path_exists fs (counted_path fs type_folder s))
           (filter (is_dir fs) (children fs type_folder)))"

section \<open>Example inputs\<close>

definition no_content :: content where
  "no_content = \<lparr>csv_table = None, pdf_pages = None\<rparr>"

definition no_regex :: regex_engine where
  "no_regex = (\<lambda>pattern. None)"

definition savings :: account where
  "savings = \<lparr>Account_ID = Some ''9988'', Account_Name = Some ''Savings''\<rparr>"

definition chase :: bank_data where
  "chase = \<lparr>Bank_ID = Some ''CHK1'', Accounts = Some [savings]\<rparr>"

definition nameless :: bank_data where
  "nameless = \<lparr>Bank_ID = None, Accounts = None\<rparr>"

text \<open>A directory \<open>CSV\<close> with one entry, and no directory \<open>CSV_1\<close>.\<close>

definition stale_fs :: filesys where
  "stale_fs = [([], Dir), ([''CSV''], Dir), ([''CSV'', ''old.csv''], File no_content)]"

text \<open>A folder \<open>in\<close> with one file.\<close>

definition single_fs :: "content \<Rightarrow> filesys" where
  "single_fs c = [([], Dir), ([''in''], Dir), ([''in'', ''a.csv''], File c)]"

text \<open>The folder \<open>in\<close> of the scenario, with its two files.\<close>

definition scenario_fs :: "content \<Rightarrow> content \<Rightarrow> filesys" where
  "scenario_fs c1 c2 =
     [([], Dir), ([''in''], Dir),
      ([''in'', ''statement_9988.csv''], File c1), ([''in'', ''random.csv''], File c2)]"

text \<open>A type folder \<open>CSV_2\<close> with the two files in it.\<close>

definition sorted_fs :: filesys where
  "sorted_fs =
     [([], Dir), ([''CSV_2''], Dir),
      ([''CSV_2'', ''statement_9988.csv''], File no_content),
      ([''CSV_2'', ''random.csv''], File no_content)]"


definition overwritten_fs :: filesys where
  "overwritten_fs =
     [([], Dir), ([''_2''], Dir), ([''_2'', ''Chase''], File no_content),
      ([''_2'', ''Chase notes''], File \<lparr>csv_table = Some [], pdf_pages = None\<rparr>)]"

definition taken_fs :: filesys where
  "taken_fs =
     [([], Dir), ([''CSV_2''], Dir), ([''CSV_2'', ''Chase''], Dir),
      ([''CSV_2'', ''Chase'', ''statement_9988.csv''], File no_content),
      ([''CSV_2'', ''statement_9988.csv''], File no_content)]"

text \<open>Directories with and without a name taken by a type folder.\<close>

definition plain :: content where
  "plain = \<lparr>csv_table = Some [], pdf_pages = None\<rparr>"

definition notes_fs :: filesys where
  "notes_fs = [([], Dir), ([''README''], File no_content), ([''notes''], File plain),
               ([''a.csv''], File plain)]"

definition clash_fs :: filesys where
  "clash_fs = [([], Dir), ([''a.csv''], File plain), ([''CSV_1''], File no_content)]"

definition lone_fs :: filesys where
  "lone_fs = [([], Dir), ([''_1''], File plain)]"

text \<open>Type folders with a bank folder in them.\<close>

definition banked_fs :: filesys where
  "banked_fs =
     [([], Dir), ([''CSV_2''], Dir),
      ([''CSV_2'', ''Chase'', ''statement_9988.csv''], File no_content),
      ([''CSV_2'', ''random.csv''], File no_content),
      ([''CSV_2'', ''Chase''], Dir)]"

definition dotted_fs :: filesys where
  "dotted_fs =
     [([], Dir), ([''CSV_1''], Dir), ([''CSV_1'', ''U.S. Bank''], Dir),
      ([''CSV_1'', ''U.S. Bank'', ''a.csv''], File no_content)]"

section \<open>Evaluation\<close>

lemma str_nat_digit: "n < 10 \<Longrightarrow> str_nat n = [digit_char n]"
  by (simp add: str_nat.simps)

lemmas eval_defs = categorize_files_by_type_def iterdir_def children_def say_def is_file_def
  lower_def lower_char_def upper_def upper_char_def path_suffix_def path_stem_def rfind_dot_def
  path_name_def type_folder_name_def pjoin_def create_folder_def path_exists_def
  mkdir_parents.simps shutil_move_def is_dir_def os_rename_def relocate_def reprefix_def
  str_nat_digit digit_char_def Let_def resolve_type_folder_def main_def no_content_def
  no_regex_def savings_def chase_def nameless_def stale_fs_def scenario_fs_def sorted_fs_def
  associate_with_bank_def bank_name_or_id_def re_search_def literal_pattern_def regex_meta_def
  get_str_def get_accounts_def accounts_by_content_def check_csv_for_account_id_def
  csv_lookup_def read_csv_def check_pdf_for_account_id_def pdf_lookup_def open_pdf_def
  move_to_bank_folder_def update_subfolder_counts_def counted_name_def

lemma is_substr_Nil: "is_substr [] s"
  by (cases s) simp_all

lemma fsys_say [simp]: "fsys (say m w) = fsys w"
  by (simp add: say_def)

section \<open>The loop over the file types\<close>

text \<open>
  The test of line 60: where \<open>base_path / EXT\<close> can be listed and the folder named from
  the length of that listing does not exist, the associator goes on to the next file
  type, from the same state.
\<close>

lemma associate_skips_missing_type_folder:
  assumes "resolve_type_folder (fsys w) base_path file_type = Inr type_folder"
      and "\<not> path_exists (fsys w) type_folder"
  shows "associate_files_with_sources rx w base_path (file_type # file_types) json_data =
         associate_files_with_sources rx w base_path file_types json_data"
  using assms by simp

lemma associate_skips_missing_type_folder_example:
  "resolve_type_folder (fsys \<lparr>fsys = stale_fs, out = []\<rparr>) [] ''.csv'' = Inr [''CSV_1'']
   \<and> \<not> path_exists (fsys \<lparr>fsys = stale_fs, out = []\<rparr>) [''CSV_1'']
   \<and> associate_files_with_sources no_regex \<lparr>fsys = stale_fs, out = []\<rparr> [] [''.csv''] [] =
       Inr \<lparr>fsys = stale_fs, out = []\<rparr>"
proof -
  have r: "resolve_type_folder (fsys \<lparr>fsys = stale_fs, out = []\<rparr>) [] ''.csv'' = Inr [''CSV_1'']"
    by (simp add: eval_defs)
  have e: "\<not> path_exists (fsys \<lparr>fsys = stale_fs, out = []\<rparr>) [''CSV_1'']"
    by (simp add: eval_defs)
  from associate_skips_missing_type_folder [OF r e, of no_regex "[]" "[]"] r e
  show ?thesis by simp
qed

text \<open>
  That test is not reached where \<open>base_path / EXT\<close> is missing: line 58 lists that
  directory first, and the listing raises.
\<close>

lemma association_raises_without_the_listed_folder:
  assumes "\<not> path_exists (fsys w) (pjoin base_path (upper (drop 1 file_type)))"
  shows "associate_files_with_sources rx w base_path (file_type # file_types) json_data =
           Inl (FileNotFoundError, w)"
  using assms by (simp add: resolve_type_folder_def iterdir_def path_exists_def)

text \<open>
  C1.  The claim fails on the code.  A folder \<open>in\<close> holding the one file \<open>a.csv\<close>:
  categorization moves it into \<open>in/CSV_1\<close> and returns \<open>.csv\<close>.  For this extension
  the associator lists \<open>in/CSV\<close>, a folder that does not exist, and the run ends in
  \<open>FileNotFoundError\<close> instead of going on: the extension is not skipped, and the test
  that would skip it is never reached.  This holds whatever the file contains, whatever
  the registry and whatever the regular expression engine does.
\<close>

theorem association_raises_before_the_guard:
  "main rx \<lparr>fsys = single_fs c, out = []\<rparr> [''in''] (Some json_data) =
     Inl (FileNotFoundError,
          \<lparr>fsys = [([], Dir), ([''in''], Dir),
                   ([''in'', ''CSV_1'', ''a.csv''], File c),
                   ([''in'', ''CSV_1''], Dir)],
           out = [LoadingJSON, CategorizingFiles [''in''], CreatingFolder [''in'', ''CSV_1''],
                  MovingFile [''in'', ''a.csv''] [''in'', ''CSV_1''],
                  FileTypesFound [''.csv'']]\<rparr>)"
  by (simp add: eval_defs single_fs_def)

section \<open>The scenario of the specification\<close>

text \<open>
  C2.  The scenario: registry \<open>Chase\<close> with ID \<open>CHK1\<close> and account \<open>9988\<close>, a folder with
  \<open>statement_9988.csv\<close> and \<open>random.csv\<close>.  Categorization moves both files into
  \<open>CSV_2\<close>.  Association then lists the directory \<open>CSV\<close>, which does not exist, and the
  run ends in \<open>FileNotFoundError\<close>: no file reaches \<open>CSV_2/Chase\<close>, and no folder
  \<open>Chase_1\<close> is made.  This holds whatever the two files contain and whatever the
  regular expression engine does.
\<close>

theorem scenario_ends_in_FileNotFoundError:
  "main rx \<lparr>fsys = scenario_fs c1 c2, out = []\<rparr> [''in''] (Some [(''Chase'', chase)]) =
     Inl (FileNotFoundError,
          \<lparr>fsys = [([], Dir), ([''in''], Dir),
                   ([''in'', ''CSV_2'', ''statement_9988.csv''], File c1),
                   ([''in'', ''CSV_2'', ''random.csv''], File c2),
                   ([''in'', ''CSV_2''], Dir)],
           out = [LoadingJSON, CategorizingFiles [''in''], CreatingFolder [''in'', ''CSV_2''],
                  MovingFile [''in'', ''statement_9988.csv''] [''in'', ''CSV_2''],
                  MovingFile [''in'', ''random.csv''] [''in'', ''CSV_2''],
                  FileTypesFound [''.csv'']]\<rparr>)"
  by (simp add: eval_defs)

text \<open>
  Had the type folder been found, the rest of the scenario is what the code does: from
  \<open>CSV_2\<close> holding the two files, association and the count update leave
  \<open>statement_9988.csv\<close> in \<open>CSV_2/Chase_1\<close> and \<open>random.csv\<close> in \<open>CSV_2\<close>.
\<close>

lemma scenario_from_the_type_folder:
  "(case associate_files no_regex \<lparr>fsys = sorted_fs, out = []\<rparr> [''CSV_2'']
           [[''CSV_2'', ''statement_9988.csv''], [''CSV_2'', ''random.csv'']]
           [(''Chase'', chase)] of
      Inl e \<Rightarrow> Inl e
    | Inr w \<Rightarrow> map_sum id fsys (update_subfolder_counts w [''CSV_2''])) =
   Inr [([], Dir), ([''CSV_2''], Dir),
        ([''CSV_2'', ''Chase_1'', ''statement_9988.csv''], File no_content),
        ([''CSV_2'', ''random.csv''], File no_content),
        ([''CSV_2'', ''Chase_1''], Dir)]"
  by (simp add: eval_defs)

section \<open>The content checks\<close>

lemma re_search_cases:
  "(\<forall>s. re_search rx pat s = Inl ReError) \<or> (\<forall>s. \<exists>b. re_search rx pat s = Inr b)"
  by (auto simp: re_search_def split: option.splits)

lemma cells_contain_raises:
  "\<forall>s. re_search rx pat s = Inl ReError \<Longrightarrow> cells_contain rx pat cells \<noteq> Inr True"
  by (cases cells) simp_all

lemma cells_contain_compiled:
  "\<forall>s. \<exists>b. re_search rx pat s = Inr b \<Longrightarrow>
   cells_contain rx pat cells = Inr (\<exists>cell\<in>set cells. re_search rx pat cell = Inr True)"
proof (induction cells)
  case Nil
  show ?case by simp
next
  case (Cons c cells)
  from Cons.prems obtain b where "re_search rx pat c = Inr b" by blast
  with Cons show ?case by auto
qed

lemma rows_contain_raises:
  "\<forall>s. re_search rx pat s = Inl ReError \<Longrightarrow> rows_contain rx pat rows \<noteq> Inr True"
proof (induction rows)
  case Nil
  show ?case by simp
next
  case (Cons r rows)
  then show ?case
    using cells_contain_raises [of rx pat r]
    by (auto split: sum.splits)
qed

lemma rows_contain_compiled:
  "\<forall>s. \<exists>b. re_search rx pat s = Inr b \<Longrightarrow>
   rows_contain rx pat rows =
     Inr (\<exists>row\<in>set rows. \<exists>cell\<in>set row. re_search rx pat cell = Inr True)"
  by (induction rows) (auto simp: cells_contain_compiled)

lemma rows_contain_True:
  "(rows_contain rx pat rows = Inr True) =
   (\<exists>row\<in>set rows. \<exists>cell\<in>set row. re_search rx pat cell = Inr True)"
  using re_search_cases [of rx pat]
proof
  assume r: "\<forall>s. re_search rx pat s = Inl ReError"
  then show ?thesis using rows_contain_raises [OF r, of rows] by simp
next
  assume "\<forall>s. \<exists>b. re_search rx pat s = Inr b"
  then show ?thesis by (simp add: rows_contain_compiled)
qed

lemma scan_pages_found:
  "(\<exists>n. scan_pages account_id k pages = Inr (Some n)) =
   (\<exists>text\<in>set (extracted_texts pages). is_substr account_id text)"
  by (induction account_id k pages rule: scan_pages.induct) auto

lemma snd_check_csv:
  "snd (check_csv_for_account_id rx w file account_id) =
     (csv_lookup rx (fsys w) file account_id = Inr True)"
  by (auto simp: check_csv_for_account_id_def say_def Let_def split: sum.splits bool.splits)

lemma snd_check_pdf:
  "snd (check_pdf_for_account_id w file account_id) =
     (\<exists>n. pdf_lookup (fsys w) file account_id = Inr (Some n))"
  by (auto simp: check_pdf_for_account_id_def say_def Let_def split: sum.splits option.splits)

text \<open>
  C5.  The CSV check answers yes exactly when the file reads as a table and the account
  ID, searched as a pattern (\<open>re_search\<close>), is found in some cell of some row.  The PDF
  check answers yes exactly when the file opens and the account ID is a substring
  (\<open>is_substr\<close>, no pattern) of the text extracted from some page.
\<close>

theorem content_matching_semantics:
  "snd (check_csv_for_account_id rx w file account_id) =
     (\<exists>rows. read_csv (fsys w) file = Some rows \<and>
        (\<exists>row\<in>set rows. \<exists>cell\<in>set row. re_search rx account_id cell = Inr True))
   \<and> snd (check_pdf_for_account_id w file account_id) =
     (\<exists>pages. open_pdf (fsys w) file = Some pages \<and>
        (\<exists>text\<in>set (extracted_texts pages). is_substr account_id text))"
proof
  show "snd (check_csv_for_account_id rx w file account_id) =
     (\<exists>rows. read_csv (fsys w) file = Some rows \<and>
        (\<exists>row\<in>set rows. \<exists>cell\<in>set row. re_search rx account_id cell = Inr True))"
    by (cases "read_csv (fsys w) file")
       (simp_all add: snd_check_csv csv_lookup_def rows_contain_True)
  show "snd (check_pdf_for_account_id w file account_id) =
     (\<exists>pages. open_pdf (fsys w) file = Some pages \<and>
        (\<exists>text\<in>set (extracted_texts pages). is_substr account_id text))"
    by (cases "open_pdf (fsys w) file")
       (simp_all add: snd_check_pdf pdf_lookup_def scan_pages_found)
qed

lemma check_csv_raises:
  "csv_lookup rx (fsys w) file account_id = Inl e \<Longrightarrow>
   check_csv_for_account_id rx w file account_id = (csv_failed w file account_id, False)"
  by (simp add: check_csv_for_account_id_def csv_failed_def Let_def)

lemma check_pdf_raises:
  "pdf_lookup (fsys w) file account_id = Inl e \<Longrightarrow>
   check_pdf_for_account_id w file account_id = (pdf_failed w file account_id, False)"
  by (simp add: check_pdf_for_account_id_def pdf_failed_def Let_def)



lemma accounts_by_csv_unreadable:
  "read_csv (fsys w) file = None \<Longrightarrow> list_all (\<lambda>a. Account_ID a \<noteq> None) accounts \<Longrightarrow>
   \<exists>w'. fsys w' = fsys w \<and> accounts_by_csv rx w tf file bank accounts = Inr (w', False)"
proof (induction accounts arbitrary: w)
  case Nil
  show ?case by simp
next
  case (Cons a accounts)
  from Cons.prems obtain i where i: "Account_ID a = Some i" by auto
  have l: "csv_lookup rx (fsys w) file i = Inl ParserError"
    using Cons.prems by (simp add: csv_lookup_def)
  have "read_csv (fsys (csv_failed w file i)) file = None"
    using Cons.prems by (simp add: csv_failed_def)
  from Cons.IH [OF this] Cons.prems obtain w' where
    "fsys w' = fsys (csv_failed w file i)"
    "accounts_by_csv rx (csv_failed w file i) tf file bank accounts = Inr (w', False)"
    by auto
  then show ?case using i check_csv_raises [OF l]
    by (simp add: csv_failed_def)
qed

lemma accounts_by_pdf_unreadable:
  "open_pdf (fsys w) file = None \<Longrightarrow> list_all (\<lambda>a. Account_ID a \<noteq> None) accounts \<Longrightarrow>
   \<exists>w'. fsys w' = fsys w \<and> accounts_by_pdf w tf file bank accounts = Inr (w', False)"
proof (induction accounts arbitrary: w)
  case Nil
  show ?case by simp
next
  case (Cons a accounts)
  from Cons.prems obtain i where i: "Account_ID a = Some i" by auto
  have l: "pdf_lookup (fsys w) file i = Inl PdfError"
    using Cons.prems by (simp add: pdf_lookup_def)
  have "open_pdf (fsys (pdf_failed w file i)) file = None"
    using Cons.prems by (simp add: pdf_failed_def)
  from Cons.IH [OF this] Cons.prems obtain w' where
    "fsys w' = fsys (pdf_failed w file i)"
    "accounts_by_pdf (pdf_failed w file i) tf file bank accounts = Inr (w', False)"
    by auto
  then show ?case using i check_pdf_raises [OF l]
    by (simp add: pdf_failed_def)
qed

lemma accounts_by_filename_False:
  "accounts_by_filename rx w tf file bank accounts = Inr (w', False) \<Longrightarrow> w' = w"
  by (induction accounts) (auto split: sum.splits bool.splits option.splits)

lemma accounts_by_content_unreadable:
  assumes "unreadable (fsys w) file" "list_all (\<lambda>a. Account_ID a \<noteq> None) accounts"
  shows "\<exists>w'. fsys w' = fsys w \<and> accounts_by_content rx w tf file bank accounts = Inr (w', False)"
  using assms accounts_by_csv_unreadable [of w "file" accounts rx tf bank]
    accounts_by_pdf_unreadable [of w "file" accounts tf bank]
  by (auto simp: unreadable_def accounts_by_content_def)

lemma associate_file_unreadable:
  assumes "unreadable (fsys w) file"
      and "list_all (\<lambda>a. Account_ID a \<noteq> None) (get_accounts (Accounts data))"
      and "bank_name_or_id rx bank data (path_name file) = Inr False"
      and "accounts_by_filename rx w tf file bank (get_accounts (Accounts data)) = Inr (w0, False)"
  shows "\<exists>w'. fsys w' = fsys w \<and>
           associate_file rx w tf file ((bank, data) # json_data) =
           associate_file rx w' tf file json_data"
proof -
  have w0: "w0 = w" using assms(4) by (rule accounts_by_filename_False)
  from accounts_by_content_unreadable [OF assms(1,2)] obtain w' where
    w': "fsys w' = fsys w"
        "accounts_by_content rx w tf file bank (get_accounts (Accounts data)) = Inr (w', False)"
    by blast
  have "associate_with_bank rx w tf file bank data = Inr (w', False)"
    using assms(3,4) w0 w' by (simp add: associate_with_bank_def)
  then show ?thesis using w' by auto
qed

text \<open>
  C6.  When the body of a content check raises (the CSV does not parse, the search
  raises, the PDF does not open, a page does not extract), the check prints its error
  line and returns \<open>False\<close>, and the loop over the accounts goes on with the next
  account.  For a file that cannot be read at all, a bank whose file-name checks do not
  match leaves the file system as it is, and the loop over the banks goes on with the
  next bank.
\<close>

theorem content_read_errors_are_caught:
  "(csv_lookup rx (fsys w) file account_id = Inl e \<longrightarrow>
      check_csv_for_account_id rx w file account_id = (csv_failed w file account_id, False)
      \<and> (Account_ID account = Some account_id \<longrightarrow>
           accounts_by_csv rx w tf file bank (account # accounts) =
           accounts_by_csv rx (csv_failed w file account_id) tf file bank accounts))
   \<and> (pdf_lookup (fsys w) file account_id = Inl e \<longrightarrow>
      check_pdf_for_account_id w file account_id = (pdf_failed w file account_id, False)
      \<and> (Account_ID account = Some account_id \<longrightarrow>
           accounts_by_pdf w tf file bank (account # accounts) =
           accounts_by_pdf (pdf_failed w file account_id) tf file bank accounts))
   \<and> (unreadable (fsys w) file
        \<and> list_all (\<lambda>a. Account_ID a \<noteq> None) (get_accounts (Accounts data))
        \<and> bank_name_or_id rx bank data (path_name file) = Inr False
        \<and> accounts_by_filename rx w tf file bank (get_accounts (Accounts data)) = Inr (w, False) \<longrightarrow>
      (\<exists>w'. fsys w' = fsys w \<and>
           associate_file rx w tf file ((bank, data) # json_data) =
           associate_file rx w' tf file json_data))"
  using associate_file_unreadable [of w "file" data rx bank tf w json_data]
  by (auto simp: check_csv_raises check_pdf_raises)

theorem content_read_errors_are_caught_witness:
  "csv_lookup no_regex (fsys \<lparr>fsys = sorted_fs, out = []\<rparr>) [''CSV_2'', ''random.csv''] ''9988''
     = Inl ParserError
   \<and> pdf_lookup (fsys \<lparr>fsys = sorted_fs, out = []\<rparr>) [''CSV_2'', ''random.csv''] ''9988''
     = Inl PdfError
   \<and> Account_ID savings = Some ''9988''
   \<and> unreadable (fsys \<lparr>fsys = sorted_fs, out = []\<rparr>) [''CSV_2'', ''random.csv'']
   \<and> list_all (\<lambda>a. Account_ID a \<noteq> None) (get_accounts (Accounts chase))
   \<and> bank_name_or_id no_regex ''Chase'' chase (path_name [''CSV_2'', ''random.csv'']) = Inr False
   \<and> accounts_by_filename no_regex \<lparr>fsys = sorted_fs, out = []\<rparr> [''CSV_2'']
        [''CSV_2'', ''random.csv''] ''Chase'' (get_accounts (Accounts chase))
     = Inr (\<lparr>fsys = sorted_fs, out = []\<rparr>, False)
   \<and> check_csv_for_account_id no_regex \<lparr>fsys = sorted_fs, out = []\<rparr>
        [''CSV_2'', ''random.csv''] ''9988''
     = (\<lparr>fsys = sorted_fs,
         out = [CheckingCSV [''CSV_2'', ''random.csv''] ''9988'',
                ErrorReadingCSV [''CSV_2'', ''random.csv'']]\<rparr>, False)
   \<and> check_pdf_for_account_id \<lparr>fsys = sorted_fs, out = []\<rparr>
        [''CSV_2'', ''random.csv''] ''9988''
     = (\<lparr>fsys = sorted_fs,
         out = [CheckingPDF [''CSV_2'', ''random.csv''] ''9988'',
                ErrorReadingPDF [''CSV_2'', ''random.csv'']]\<rparr>, False)
   \<and> accounts_by_csv no_regex \<lparr>fsys = sorted_fs, out = []\<rparr> [''CSV_2'']
        [''CSV_2'', ''random.csv''] ''Chase'' [savings, savings]
     = accounts_by_csv no_regex
         \<lparr>fsys = sorted_fs,
          out = [CheckingCSV [''CSV_2'', ''random.csv''] ''9988'',
                 ErrorReadingCSV [''CSV_2'', ''random.csv'']]\<rparr>
         [''CSV_2''] [''CSV_2'', ''random.csv''] ''Chase'' [savings]
   \<and> (\<exists>w'. fsys w' = sorted_fs \<and>
          associate_file no_regex \<lparr>fsys = sorted_fs, out = []\<rparr> [''CSV_2'']
            [''CSV_2'', ''random.csv''] [(''Chase'', chase), (''Other'', nameless)]
          = associate_file no_regex w' [''CSV_2''] [''CSV_2'', ''random.csv'']
              [(''Other'', nameless)])"
proof -
  let ?w = "\<lparr>fsys = sorted_fs, out = []\<rparr>"
  let ?f = "[''CSV_2'', ''random.csv'']"
  have h1: "csv_lookup no_regex (fsys ?w) ?f ''9988'' = Inl ParserError"
    by (simp add: eval_defs)
  have h2: "pdf_lookup (fsys ?w) ?f ''9988'' = Inl PdfError"
    by (simp add: eval_defs)
  have h3: "Account_ID savings = Some ''9988''"
    by (simp add: savings_def)
  have h4: "unreadable (fsys ?w) ?f"
    by (simp add: unreadable_def eval_defs)
  have h5: "list_all (\<lambda>a. Account_ID a \<noteq> None) (get_accounts (Accounts chase))"
    by (simp add: eval_defs)
  have h6: "bank_name_or_id no_regex ''Chase'' chase (path_name ?f) = Inr False"
    by (simp add: eval_defs)
  have h7: "accounts_by_filename no_regex ?w [''CSV_2''] ?f ''Chase''
              (get_accounts (Accounts chase)) = Inr (?w, False)"
    by (simp add: eval_defs)
  have e1: "csv_failed ?w ?f ''9988'' =
            \<lparr>fsys = sorted_fs, out = [CheckingCSV ?f ''9988'', ErrorReadingCSV ?f]\<rparr>"
    by (simp add: csv_failed_def say_def)
  have e2: "pdf_failed ?w ?f ''9988'' =
            \<lparr>fsys = sorted_fs, out = [CheckingPDF ?f ''9988'', ErrorReadingPDF ?f]\<rparr>"
    by (simp add: pdf_failed_def say_def)
  have c1: "check_csv_for_account_id no_regex ?w ?f ''9988'' = (csv_failed ?w ?f ''9988'', False)"
    and c2: "accounts_by_csv no_regex ?w [''CSV_2''] ?f ''Chase'' [savings, savings] =
             accounts_by_csv no_regex (csv_failed ?w ?f ''9988'') [''CSV_2''] ?f ''Chase'' [savings]"
    using content_read_errors_are_caught
      [of no_regex ?w ?f "''9988''" ParserError savings "[''CSV_2'']" "''Chase''" "[savings]"]
      h1 h3 by blast+
  have c3: "check_pdf_for_account_id ?w ?f ''9988'' = (pdf_failed ?w ?f ''9988'', False)"
    using content_read_errors_are_caught
      [of no_regex ?w ?f "''9988''" PdfError savings "[''CSV_2'']" "''Chase''" "[savings]"]
      h2 by blast
  have c4: "\<exists>w'. fsys w' = fsys ?w \<and>
          associate_file no_regex ?w [''CSV_2''] ?f [(''Chase'', chase), (''Other'', nameless)]
          = associate_file no_regex w' [''CSV_2''] ?f [(''Other'', nameless)]"
    using content_read_errors_are_caught
      [of no_regex ?w ?f "''9988''" ParserError savings "[''CSV_2'']" "''Chase''" "[savings]"
          chase "[(''Other'', nameless)]"]
      h4 h5 h6 h7 by blast
  show ?thesis
    using h1 h2 h3 h4 h5 h6 h7 c1 c2 c3 c4 unfolding e1 e2 by simp
qed

section \<open>Attribution: a bank without an ID\<close>

lemma moved_to_neq [simp]: "moved_to w1 tf file bank \<noteq> Inr (w', False)"
  by (simp add: moved_to_def split: sum.splits)

lemma associate_file_append:
  "associate_file rx w tf file (xs @ ys) =
     (case associate_file rx w tf file xs of
        Inl e \<Rightarrow> Inl e
      | Inr (w1, True) \<Rightarrow> Inr (w1, True)
      | Inr (w1, False) \<Rightarrow> associate_file rx w1 tf file ys)"
  by (induction xs arbitrary: w) (auto split: sum.splits bool.splits)

lemma empty_bank_id:
  assumes "Bank_ID data = None \<or> Bank_ID data = Some []"
  shows "associate_with_bank rx w tf file bank data =
         moved_to (say (MatchesBankByFilename file bank) w) tf file bank"
proof -
  have "get_str (Bank_ID data) = []" using assms by (auto simp: get_str_def)
  then have "bank_name_or_id rx bank data (path_name file) = Inr True"
    by (simp add: bank_name_or_id_def re_search_def literal_pattern_def is_substr_Nil)
  then show ?thesis by (simp add: associate_with_bank_def moved_to_def)
qed

text \<open>
  C9 (as amended).  A bank whose \<open>Bank_ID\<close> is missing or empty matches every file
  name, because the empty pattern is found in every string.  A file that the banks
  earlier in the registry do not take is therefore moved to that bank by the file-name
  check, whatever its name and content.
\<close>

theorem empty_bank_id_takes_what_earlier_banks_leave:
  assumes "Bank_ID data = None \<or> Bank_ID data = Some []"
      and "associate_file rx w type_folder file earlier = Inr (w1, False)"
  shows "re_search rx (get_str (Bank_ID data)) (path_name file) = Inr True
         \<and> associate_file rx w type_folder file (earlier @ (bank, data) # later) =
             moved_to (say (MatchesBankByFilename file bank) w1) type_folder file bank"
proof -
  have "get_str (Bank_ID data) = []" using assms(1) by (auto simp: get_str_def)
  then have "re_search rx (get_str (Bank_ID data)) (path_name file) = Inr True"
    by (simp add: re_search_def literal_pattern_def is_substr_Nil)
  moreover have "associate_file rx w type_folder file (earlier @ (bank, data) # later) =
                 moved_to (say (MatchesBankByFilename file bank) w1) type_folder file bank"
    using assms(2) empty_bank_id [OF assms(1), of rx w1 type_folder "file" bank]
    by (simp add: associate_file_append moved_to_def split: sum.splits)
  ultimately show ?thesis by simp
qed

theorem empty_bank_id_takes_what_earlier_banks_leave_witness:
  "(Bank_ID nameless = None \<or> Bank_ID nameless = Some [])
   \<and> associate_file no_regex \<lparr>fsys = sorted_fs, out = []\<rparr> [''CSV_2'']
        [''CSV_2'', ''random.csv''] [(''Chase'', chase)]
     = Inr (\<lparr>fsys = sorted_fs,
             out = [CheckingCSV [''CSV_2'', ''random.csv''] ''9988'',
                    ErrorReadingCSV [''CSV_2'', ''random.csv'']]\<rparr>, False)
   \<and> associate_file no_regex \<lparr>fsys = sorted_fs, out = []\<rparr> [''CSV_2'']
        [''CSV_2'', ''random.csv''] [(''Chase'', chase), (''Other'', nameless)]
     = Inr (\<lparr>fsys = [([], Dir), ([''CSV_2''], Dir),
                      ([''CSV_2'', ''statement_9988.csv''], File no_content),
                      ([''CSV_2'', ''Other'', ''random.csv''], File no_content),
                      ([''CSV_2'', ''Other''], Dir)],
             out = [CheckingCSV [''CSV_2'', ''random.csv''] ''9988'',
                    ErrorReadingCSV [''CSV_2'', ''random.csv''],
                    MatchesBankByFilename [''CSV_2'', ''random.csv''] ''Other'',
                    CreatingFolder [''CSV_2'', ''Other''],
                    MovingToBankFolder [''CSV_2'', ''random.csv''] [''CSV_2'', ''Other'']]\<rparr>,
            True)"
proof -
  let ?w = "\<lparr>fsys = sorted_fs, out = []\<rparr>"
  let ?f = "[''CSV_2'', ''random.csv'']"
  let ?w1 = "\<lparr>fsys = sorted_fs, out = [CheckingCSV ?f ''9988'', ErrorReadingCSV ?f]\<rparr>"
  have h1: "Bank_ID nameless = None \<or> Bank_ID nameless = Some []"
    by (simp add: nameless_def)
  have h2: "associate_file no_regex ?w [''CSV_2''] ?f [(''Chase'', chase)] = Inr (?w1, False)"
    by (simp add: eval_defs)
  have m: "moved_to (say (MatchesBankByFilename ?f ''Other'') ?w1) [''CSV_2''] ?f ''Other'' =
           Inr (\<lparr>fsys = [([], Dir), ([''CSV_2''], Dir),
                      ([''CSV_2'', ''statement_9988.csv''], File no_content),
                      ([''CSV_2'', ''Other'', ''random.csv''], File no_content),
                      ([''CSV_2'', ''Other''], Dir)],
             out = [CheckingCSV ?f ''9988'', ErrorReadingCSV ?f,
                    MatchesBankByFilename ?f ''Other'',
                    CreatingFolder [''CSV_2'', ''Other''],
                    MovingToBankFolder ?f [''CSV_2'', ''Other'']]\<rparr>, True)"
    by (simp add: moved_to_def eval_defs)
  from empty_bank_id_takes_what_earlier_banks_leave
         [OF h1 h2, of "''Other''" "[]"] h1 h2 m
  show ?thesis by simp
qed

text \<open>
  The claim as it was stated fails where an earlier bank takes the file: \<open>Chase.csv\<close>
  goes to \<open>Chase\<close>, although the registry has a bank without \<open>Bank_ID\<close> after it.
\<close>

theorem earlier_bank_wins_over_empty_bank_id:
  "associate_file no_regex
     \<lparr>fsys = [([], Dir), ([''CSV_1''], Dir), ([''CSV_1'', ''Chase.csv''], File no_content)],
      out = []\<rparr>
     [''CSV_1''] [''CSV_1'', ''Chase.csv''] [(''Chase'', chase), (''Other'', nameless)]
   = Inr (\<lparr>fsys = [([], Dir), ([''CSV_1''], Dir),
                    ([''CSV_1'', ''Chase'', ''Chase.csv''], File no_content),
                    ([''CSV_1'', ''Chase''], Dir)],
           out = [MatchesBankByFilename [''CSV_1'', ''Chase.csv''] ''Chase'',
                  CreatingFolder [''CSV_1'', ''Chase''],
                  MovingToBankFolder [''CSV_1'', ''Chase.csv''] [''CSV_1'', ''Chase'']]\<rparr>,
          True)"
  by (simp add: eval_defs)

section \<open>Categorization: the file types returned\<close>

lemma keys_inventory_add:
  "map fst (inventory_add groups ext file) =
     (if ext \<in> set (map fst groups) then map fst groups else map fst groups @ [ext])"
  by (induction groups ext "file" rule: inventory_add.induct) auto

lemma keyset_inventory_add:
  "fst ` set (inventory_add groups ext file) = insert ext (fst ` set groups)"
  using arg_cong [OF keys_inventory_add [of groups ext "file"], of set] by auto

lemma keys_build_inventory:
  "distinct (map fst groups) \<Longrightarrow>
   distinct (map fst (build_inventory fs files groups)) \<and>
   set (map fst (build_inventory fs files groups)) =
     set (map fst groups) \<union>
     (\<lambda>f. lower (path_suffix (path_name f))) ` {f \<in> set files. is_file fs f}"
proof (induction files arbitrary: groups)
  case Nil
  then show ?case by simp
next
  case (Cons f files)
  let ?g = "if is_file fs f then inventory_add groups (lower (path_suffix (path_name f))) f
            else groups"
  have d: "distinct (map fst ?g)" using Cons.prems by (simp add: keys_inventory_add)
  show ?case using Cons.IH [OF d] by (auto simp: keyset_inventory_add)
qed

lemma rfind_dot_Some:
  assumes "rfind_dot name = Some i"
  shows "i < length name \<and> name ! i = CHR ''.''"
proof -
  let ?r = "length (takeWhile (\<lambda>c. c \<noteq> CHR ''.'') (rev name))"
  from assms have r: "?r \<noteq> length name" and i: "i = length name - ?r - 1"
    by (auto simp: rfind_dot_def Let_def split: if_splits)
  have "?r \<le> length (rev name)" by (rule length_takeWhile_le)
  with r have lt: "?r < length (rev name)" by simp
  then have "\<not> (rev name ! ?r \<noteq> CHR ''.'')" by (rule nth_length_takeWhile)
  moreover have "rev name ! ?r = name ! (length name - Suc ?r)"
    using lt by (simp add: rev_nth)
  ultimately show ?thesis using i lt by simp
qed

lemma path_suffix_dot: "path_suffix name = [] \<or> hd (path_suffix name) = CHR ''.''"
  by (auto simp: path_suffix_def hd_drop_conv_nth dest: rfind_dot_Some split: option.splits)

lemma lower_suffix_dot:
  "lower (path_suffix name) = [] \<or> hd (lower (path_suffix name)) = CHR ''.''"
proof (cases "path_suffix name")
  case Nil
  then show ?thesis by (simp add: lower_def)
next
  case (Cons c cs)
  with path_suffix_dot [of name] have "c = CHR ''.''" by simp
  with Cons show ?thesis by (simp add: lower_def lower_char_def)
qed

text \<open>
  C8 (as amended).  Categorization returns each lower-cased suffix of the regular files
  directly in the directory once.  A suffix is returned as \<open>pathlib\<close> gives it, with its
  leading dot (the empty string for a file without suffix); the dot is dropped only
  where a folder name is built from it.
\<close>

theorem categorize_returns_suffixes:
  assumes "categorize_files_by_type w base_path = Inr (w', file_types)"
  shows "distinct file_types
         \<and> set file_types =
             (\<lambda>f. lower (path_suffix (path_name f))) `
               {f \<in> set (children (fsys w) base_path). is_file (fsys w) f}
         \<and> list_all (\<lambda>t. t = [] \<or> hd t = CHR ''.'') file_types"
proof -
  from assms have t: "file_types = map fst (build_inventory (fsys w) (children (fsys w) base_path) [])"
    by (auto simp: categorize_files_by_type_def Let_def iterdir_def say_def
        split: sum.splits option.splits entry.splits)
  have k: "distinct file_types \<and> set file_types =
             (\<lambda>f. lower (path_suffix (path_name f))) `
               {f \<in> set (children (fsys w) base_path). is_file (fsys w) f}"
    unfolding t using keys_build_inventory [of "[]" "fsys w" "children (fsys w) base_path"]
    by simp
  then have "\<forall>t\<in>set file_types. t = [] \<or> hd t = CHR ''.''"
    using lower_suffix_dot by auto
  with k show ?thesis by (simp add: list_all_iff)
qed

theorem categorize_returns_suffixes_witness:
  "categorize_files_by_type \<lparr>fsys = scenario_fs no_content no_content, out = []\<rparr> [''in''] =
     Inr (\<lparr>fsys = [([], Dir), ([''in''], Dir),
                   ([''in'', ''CSV_2'', ''statement_9988.csv''], File no_content),
                   ([''in'', ''CSV_2'', ''random.csv''], File no_content),
                   ([''in'', ''CSV_2''], Dir)],
           out = [CategorizingFiles [''in''], CreatingFolder [''in'', ''CSV_2''],
                  MovingFile [''in'', ''statement_9988.csv''] [''in'', ''CSV_2''],
                  MovingFile [''in'', ''random.csv''] [''in'', ''CSV_2''],
                  FileTypesFound [''.csv'']]\<rparr>, [''.csv''])
   \<and> distinct [''.csv'']
   \<and> set [''.csv''] =
        (\<lambda>f. lower (path_suffix (path_name f))) `
          {f \<in> set (children (scenario_fs no_content no_content) [''in'']).
             is_file (scenario_fs no_content no_content) f}
   \<and> list_all (\<lambda>t. t = [] \<or> hd t = CHR ''.'') [''.csv'']"
proof -
  have h: "categorize_files_by_type \<lparr>fsys = scenario_fs no_content no_content, out = []\<rparr> [''in''] =
     Inr (\<lparr>fsys = [([], Dir), ([''in''], Dir),
                   ([''in'', ''CSV_2'', ''statement_9988.csv''], File no_content),
                   ([''in'', ''CSV_2'', ''random.csv''], File no_content),
                   ([''in'', ''CSV_2''], Dir)],
           out = [CategorizingFiles [''in''], CreatingFolder [''in'', ''CSV_2''],
                  MovingFile [''in'', ''statement_9988.csv''] [''in'', ''CSV_2''],
                  MovingFile [''in'', ''random.csv''] [''in'', ''CSV_2''],
                  FileTypesFound [''.csv'']]\<rparr>, [''.csv''])"
    by (simp add: eval_defs)
  from categorize_returns_suffixes [OF h] h show ?thesis by simp
qed

text \<open>
  The claim as it was stated fails on a directory with the one file \<open>a.csv\<close>: the
  extension returned is \<open>.csv\<close>, not \<open>csv\<close>.
\<close>

theorem categorize_keeps_the_dot:
  "categorize_files_by_type \<lparr>fsys = [([], Dir), ([''a.csv''], File no_content)], out = []\<rparr> [] =
     Inr (\<lparr>fsys = [([], Dir), ([''CSV_1'', ''a.csv''], File no_content), ([''CSV_1''], Dir)],
           out = [CategorizingFiles [], CreatingFolder [''CSV_1''],
                  MovingFile [''a.csv''] [''CSV_1''], FileTypesFound [''.csv'']]\<rparr>,
          [''.csv''])
   \<and> categorize_files_by_type \<lparr>fsys = [([], Dir), ([''a.csv''], File no_content)], out = []\<rparr> [] \<noteq>
     Inr (\<lparr>fsys = [([], Dir), ([''CSV_1'', ''a.csv''], File no_content), ([''CSV_1''], Dir)],
           out = [CategorizingFiles [], CreatingFolder [''CSV_1''],
                  MovingFile [''a.csv''] [''CSV_1''], FileTypesFound [''.csv'']]\<rparr>,
          [''csv''])"
  by (simp add: eval_defs)

section \<open>Categorization: the folders made\<close>

subsection \<open>Renaming in the file system\<close>

lemma reprefix_inj:
  assumes "\<not> prefix dst a" "\<not> prefix dst b" "reprefix src dst a = reprefix src dst b"
  shows "a = b"
proof (cases "prefix src a")
  case True
  note pa = True
  show ?thesis
  proof (cases "prefix src b")
    case True
    with pa assms(3) have "drop (length src) a = drop (length src) b"
      by (simp add: reprefix_def)
    with pa True show ?thesis
      by (metis append_take_drop_id prefix_def append_eq_conv_conj)
  next
    case False
    with pa assms(3) have "b = dst @ drop (length src) a" by (simp add: reprefix_def)
    with assms(2) show ?thesis by simp
  qed
next
  case False
  note pa = False
  show ?thesis
  proof (cases "prefix src b")
    case True
    with pa assms(3) have "a = dst @ drop (length src) b" by (simp add: reprefix_def)
    with assms(1) show ?thesis by simp
  next
    case False
    with pa assms(3) show ?thesis by (simp add: reprefix_def)
  qed
qed

lemma map_of_map_key_inj:
  assumes "\<forall>a\<in>fst ` set fs. h a = h k \<longrightarrow> a = k"
  shows "map_of (map (\<lambda>(q, e). (h q, e)) fs) (h k) = map_of fs k"
  using assms by (induction fs) auto

lemma map_of_map_key_None:
  assumes "\<forall>a\<in>fst ` set fs. h a \<noteq> k"
  shows "map_of (map (\<lambda>(q, e). (h q, e)) fs) k = None"
  using assms by (induction fs) auto

lemma filter_absent:
  "map_of fs dst = None \<Longrightarrow> filter (\<lambda>(q, e). q \<noteq> dst) fs = fs"
  by (induction fs) (auto split: if_splits)

lemma relocate_lookup:
  assumes free: "\<And>q. prefix dst q \<Longrightarrow> map_of fs q = None"
  shows "map_of (relocate src dst fs) q =
           (if prefix dst q then map_of fs (src @ drop (length dst) q)
            else if prefix src q then None else map_of fs q)"
proof -
  have keys: "\<And>a. a \<in> fst ` set fs \<Longrightarrow> \<not> prefix dst a"
    using free by (force simp: map_of_eq_None_iff)
  have r: "relocate src dst fs = map (\<lambda>(q, e). (reprefix src dst q, e)) fs"
    using free [of dst] by (simp add: relocate_def filter_absent)
  show ?thesis
  proof (cases "prefix dst q")
    case True
    then obtain t where q: "q = dst @ t" by (auto simp: prefix_def)
    let ?k = "src @ t"
    have hk: "reprefix src dst ?k = q" by (simp add: reprefix_def q)
    show ?thesis
    proof (cases "map_of fs ?k")
      case None
      have "\<forall>a\<in>fst ` set fs. reprefix src dst a \<noteq> q"
      proof (intro ballI notI)
        fix a assume a: "a \<in> fst ` set fs" and e: "reprefix src dst a = q"
        show False
        proof (cases "prefix src a")
          case True
          then obtain u where "a = src @ u" by (auto simp: prefix_def)
          with e q have "a = ?k" by (simp add: reprefix_def)
          with a None show False by (simp add: map_of_eq_None_iff)
        next
          case False
          with e have "a = q" by (simp add: reprefix_def)
          with keys [OF a] True show False by simp
        qed
      qed
      then have "map_of (map (\<lambda>(q, e). (reprefix src dst q, e)) fs) q = None"
        by (rule map_of_map_key_None)
      with None r q show ?thesis by simp
    next
      case (Some e)
      have k: "\<not> prefix dst ?k" using free [of ?k] Some by auto
      have "map_of (map (\<lambda>(q, e). (reprefix src dst q, e)) fs) (reprefix src dst ?k) =
            map_of fs ?k"
        by (rule map_of_map_key_inj) (use keys k reprefix_inj in blast)
      with r hk q show ?thesis by simp
    qed
  next
    case False
    note nd = False
    show ?thesis
    proof (cases "prefix src q")
      case True
      have "\<forall>a\<in>fst ` set fs. reprefix src dst a \<noteq> q"
        using True nd by (auto simp: reprefix_def split: if_splits)
      then have "map_of (map (\<lambda>(q, e). (reprefix src dst q, e)) fs) q = None"
        by (rule map_of_map_key_None)
      with r True nd show ?thesis by simp
    next
      case False
      then have hq: "reprefix src dst q = q" by (simp add: reprefix_def)
      have "map_of (map (\<lambda>(q, e). (reprefix src dst q, e)) fs) (reprefix src dst q) =
            map_of fs q"
        by (rule map_of_map_key_inj) (use keys nd reprefix_inj in blast)
      with r hq False nd show ?thesis by simp
    qed
  qed
qed

lemma relocate_distinct:
  assumes free: "\<And>q. prefix dst q \<Longrightarrow> map_of fs q = None"
      and d: "distinct (map fst fs)"
  shows "distinct (map fst (relocate src dst fs))"
proof -
  have keys: "\<And>a. a \<in> set (map fst fs) \<Longrightarrow> \<not> prefix dst a"
    using free by (force simp: map_of_eq_None_iff)
  have r: "map fst (relocate src dst fs) = map (reprefix src dst) (map fst fs)"
    using free [of dst] by (simp add: relocate_def filter_absent case_prod_beta comp_def)
  have "inj_on (reprefix src dst) (set (map fst fs))"
    by (rule inj_onI) (use keys reprefix_inj in blast)
  with d show ?thesis
    unfolding r distinct_map [of "reprefix src dst" "map fst fs"] by blast
qed

lemma wf_parent:
  assumes "wf_fs fs" "map_of fs q = Some e" "q \<noteq> []"
  shows "map_of fs (butlast q) = Some Dir"
proof -
  from assms(2) have "(q, e) \<in> set fs" by (rule map_of_SomeD)
  with assms(1,3) show ?thesis by (auto simp: wf_fs_def list_all_iff)
qed

lemma wf_ancestor:
  "wf_fs fs \<Longrightarrow> map_of fs q \<noteq> None \<Longrightarrow> prefix p q \<Longrightarrow> p \<noteq> q \<Longrightarrow> map_of fs p = Some Dir"
proof (induction q rule: rev_induct)
  case Nil
  then show ?case by simp
next
  case (snoc x q)
  from snoc.prems obtain e where "map_of fs (q @ [x]) = Some e" by auto
  with snoc.prems(1) have par: "map_of fs q = Some Dir"
    using wf_parent [of fs "q @ [x]" e] by simp
  from snoc.prems(3,4) have "prefix p q" by (auto simp: prefix_snoc)
  show ?case
  proof (cases "p = q")
    case True
    with par show ?thesis by simp
  next
    case False
    with snoc.IH snoc.prems(1) par \<open>prefix p q\<close> show ?thesis by simp
  qed
qed

lemma wf_leaf: "wf_fs fs \<Longrightarrow> map_of fs f = Some (File c) \<Longrightarrow> leaf fs f"
  unfolding leaf_def using wf_ancestor [of fs _ f] by fastforce

lemma wf_vacant: "wf_fs fs \<Longrightarrow> map_of fs p = None \<Longrightarrow> vacant fs p"
  unfolding vacant_def using wf_ancestor [of fs _ p] by fastforce

lemma create_folder_fresh:
  assumes "map_of (fsys w) T = None" "T \<noteq> []" "map_of (fsys w) (butlast T) = Some Dir"
  shows "create_folder w T = Inr ((say (CreatingFolder T) w)\<lparr>fsys := fsys w @ [(T, Dir)]\<rparr>)"
  using assms
  by (simp add: create_folder_def path_exists_def mkdir_parents.simps [of _ T] Let_def)

lemma lookup_snoc:
  "map_of fs T = None \<Longrightarrow>
   map_of (fs @ [(T, e)]) q = (if q = T then Some e else map_of fs q)"
  by (simp add: map_add_def split: option.splits)

lemma distinct_snoc:
  "map_of fs T = None \<Longrightarrow> distinct (map fst fs) \<Longrightarrow> distinct (map fst (fs @ [(T, e)]))"
  by (simp add: map_of_eq_None_iff)

lemma shutil_move_into:
  assumes d: "distinct (map fst fs)"
      and f: "map_of fs f = Some (File c)" "f \<noteq> []" "leaf fs f"
      and T: "map_of fs T = Some Dir"
      and v: "vacant fs (T @ [last f])"
  shows "\<exists>fs'. shutil_move fs f T = Inr fs' \<and> distinct (map fst fs') \<and>
           (\<forall>q. map_of fs' q =
              (if q = T @ [last f] then Some (File c)
               else if q = f then None else map_of fs q))"
proof -
  let ?dst = "T @ [last f]"
  have free: "\<And>q. prefix ?dst q \<Longrightarrow> map_of fs q = None"
    using v by (simp add: vacant_def)
  have ne: "f \<noteq> T" using f T by auto
  have nd: "f \<noteq> ?dst" using free [of ?dst] f by auto
  have m: "shutil_move fs f T = Inr (relocate f ?dst fs)"
    using f T ne nd free [of ?dst]
    by (simp add: shutil_move_def is_dir_def path_exists_def path_name_def os_rename_def)
  have l: "map_of (relocate f ?dst fs) q =
              (if q = ?dst then Some (File c) else if q = f then None else map_of fs q)" for q
  proof -
    have r: "map_of (relocate f ?dst fs) q =
           (if prefix ?dst q then map_of fs (f @ drop (length ?dst) q)
            else if prefix f q then None else map_of fs q)"
      using free by (rule relocate_lookup)
    show ?thesis
    proof (cases "prefix ?dst q")
      case True
      then obtain t where q: "q = ?dst @ t" by (auto simp: prefix_def)
      show ?thesis
      proof (cases "t = []")
        case True
        with q r f show ?thesis by simp
      next
        case False
        have "map_of fs (f @ t) = None"
        proof (rule ccontr)
          assume "map_of fs (f @ t) \<noteq> None"
          with f(3) have "f @ t = f" unfolding leaf_def by (metis prefixI)
          with False show False by simp
        qed
        moreover have "map_of fs q = None" using free q by simp
        moreover have "q \<noteq> f" using f(1) calculation by auto
        ultimately show ?thesis using r q False by simp
      qed
    next
      case False
      note np = False
      show ?thesis
      proof (cases "prefix f q")
        case True
        then have "q \<noteq> f \<Longrightarrow> map_of fs q = None"
          using f(3) by (auto simp: leaf_def)
        with r np True show ?thesis by auto
      next
        case False
        with r np show ?thesis by auto
      qed
    qed
  qed
  have "distinct (map fst (relocate f ?dst fs))"
    using free d by (rule relocate_distinct)
  with m l show ?thesis by blast
qed

lemma snoc_butlast: "f \<noteq> [] \<Longrightarrow> butlast f = base \<Longrightarrow> base @ [last f] = f"
  by (metis append_butlast_last_id)

lemma prefix_same_length: "prefix a (b @ [x]) \<Longrightarrow> length a = length b \<Longrightarrow> a = b"
proof -
  assume p: "prefix a (b @ [x])" and l: "length a = length b"
  from p obtain t where t: "b @ [x] = a @ t" by (auto simp: prefix_def)
  then have "take (length b) (b @ [x]) = take (length a) (a @ t)" using l by simp
  then show "a = b" by simp
qed

lemma prefix_equal_length: "prefix a b \<Longrightarrow> length a = length b \<Longrightarrow> a = b"
  by (auto simp: prefix_def)

lemma move_files_effect:
  assumes d: "distinct (map fst (fsys w))"
      and T: "map_of (fsys w) T = Some Dir" "T \<noteq> []" "butlast T = base"
      and fl: "distinct files"
              "\<forall>f\<in>set files. f \<noteq> [] \<and> butlast f = base
                 \<and> (\<exists>c. map_of (fsys w) f = Some (File c))
                 \<and> leaf (fsys w) f \<and> vacant (fsys w) (T @ [last f])"
  shows "\<exists>w'. move_files w files T = Inr w' \<and> distinct (map fst (fsys w')) \<and>
           (\<forall>q. map_of (fsys w') q =
              (if q \<in> (\<lambda>f. T @ [last f]) ` set files then map_of (fsys w) (base @ [last q])
               else if q \<in> set files then None else map_of (fsys w) q))"
  using assms
proof (induction files arbitrary: w)
  case Nil
  then show ?case by simp
next
  case (Cons f files)
  let ?fs = "fsys w"
  let ?w1 = "say (MovingFile f T) w"
  from Cons.prems obtain c where
    f: "f \<noteq> []" "butlast f = base" "map_of ?fs f = Some (File c)" "leaf ?fs f"
       "vacant ?fs (T @ [last f])"
    by auto
  have fb: "base @ [last f] = f" using f by (simp add: snoc_butlast)
  have "base @ [last T] = T" using Cons.prems(3,4) by (simp add: snoc_butlast)
  then have lenT: "length T = Suc (length base)"
    using length_append_singleton [of base "last T"] by simp
  from shutil_move_into [OF Cons.prems(1) f(3) f(1) f(4) Cons.prems(2) f(5)]
  obtain fs1 where
    m: "shutil_move ?fs f T = Inr fs1" and d1: "distinct (map fst fs1)"
    and l1: "\<And>q. map_of fs1 q =
              (if q = T @ [last f] then Some (File c)
               else if q = f then None else map_of ?fs q)"
    by blast
  let ?w2 = "?w1\<lparr>fsys := fs1\<rparr>"
  have step: "move_files w (f # files) T = move_files ?w2 files T"
    using m by (simp add: Let_def)
  have rest: "\<And>g. g \<in> set files \<Longrightarrow>
     g \<noteq> [] \<and> butlast g = base \<and> g \<noteq> f \<and> g \<noteq> T @ [last f] \<and> last g \<noteq> last f
     \<and> g \<noteq> T \<and> length g = length T"
  proof -
    fix g assume g: "g \<in> set files"
    with Cons.prems have g1: "g \<noteq> []" "butlast g = base" "g \<noteq> f"
      and gc: "\<exists>c. map_of ?fs g = Some (File c)" by auto
    have gb: "base @ [last g] = g" using g1 by (simp add: snoc_butlast)
    have "last g \<noteq> last f"
    proof
      assume "last g = last f"
      with gb fb have "g = f" by metis
      with g1(3) show False by simp
    qed
    moreover have "g \<noteq> T" using gc Cons.prems(2) by auto
    moreover have "length g = length T"
      using lenT length_append_singleton [of base "last g"] gb by simp
    moreover have "g \<noteq> T @ [last f]" using calculation(3) by auto
    ultimately show "g \<noteq> [] \<and> butlast g = base \<and> g \<noteq> f \<and> g \<noteq> T @ [last f]
      \<and> last g \<noteq> last f \<and> g \<noteq> T \<and> length g = length T"
      using g1 by simp
  qed
  have T1: "map_of (fsys ?w2) T = Some Dir"
    using l1 [of T] Cons.prems(2) f(3) by auto
  have fl1: "\<forall>g\<in>set files. g \<noteq> [] \<and> butlast g = base
                 \<and> (\<exists>c. map_of (fsys ?w2) g = Some (File c))
                 \<and> leaf (fsys ?w2) g \<and> vacant (fsys ?w2) (T @ [last g])"
  proof
    fix g assume g: "g \<in> set files"
    note r = rest [OF g]
    from g Cons.prems have gc: "\<exists>c. map_of ?fs g = Some (File c)"
      and gl: "leaf ?fs g" and gv: "vacant ?fs (T @ [last g])" by auto
    have a: "\<exists>c. map_of (fsys ?w2) g = Some (File c)"
      using gc r l1 [of g] by simp
    have b: "leaf (fsys ?w2) g"
      unfolding leaf_def
    proof (intro allI impI)
      fix q assume p: "prefix g q" and e: "map_of (fsys ?w2) q \<noteq> None"
      have "q \<noteq> T @ [last f]"
      proof
        assume "q = T @ [last f]"
        with p have "prefix g (T @ [last f])" by simp
        moreover have "length g = length T" using r by simp
        ultimately have "g = T" by (rule prefix_same_length)
        with r show False by simp
      qed
      with e l1 [of q] have "map_of ?fs q \<noteq> None" by (auto split: if_splits)
      with gl p show "q = g" by (simp add: leaf_def)
    qed
    have c: "vacant (fsys ?w2) (T @ [last g])"
      unfolding vacant_def
    proof (intro allI impI)
      fix q assume p: "prefix (T @ [last g]) q"
      have "q \<noteq> T @ [last f]"
      proof
        assume "q = T @ [last f]"
        with p have "T @ [last g] = T @ [last f]"
          using prefix_equal_length [of "T @ [last g]" "T @ [last f]"] by simp
        with r show False by simp
      qed
      moreover have "map_of ?fs q = None" using gv p by (simp add: vacant_def)
      ultimately show "map_of (fsys ?w2) q = None" using l1 [of q] by simp
    qed
    from r a b c show "g \<noteq> [] \<and> butlast g = base
                 \<and> (\<exists>c. map_of (fsys ?w2) g = Some (File c))
                 \<and> leaf (fsys ?w2) g \<and> vacant (fsys ?w2) (T @ [last g])" by simp
  qed
  have d2: "distinct (map fst (fsys ?w2))" using d1 by simp
  have dl: "distinct files" using Cons.prems(5) by simp
  from Cons.IH [OF d2 T1 Cons.prems(3,4) dl fl1] obtain w' where
    r: "move_files ?w2 files T = Inr w'" and dw: "distinct (map fst (fsys w'))"
    and lw: "\<And>q. map_of (fsys w') q =
              (if q \<in> (\<lambda>f. T @ [last f]) ` set files then map_of (fsys ?w2) (base @ [last q])
               else if q \<in> set files then None else map_of (fsys ?w2) q)"
    by blast
  have "map_of (fsys w') q =
              (if q \<in> (\<lambda>f. T @ [last f]) ` set (f # files) then map_of ?fs (base @ [last q])
               else if q \<in> set (f # files) then None else map_of ?fs q)" for q
  proof (cases "q \<in> (\<lambda>f. T @ [last f]) ` set files")
    case True
    then obtain g where g: "g \<in> set files" "q = T @ [last g]" by auto
    have "base @ [last q] = g" using g rest [OF g(1)] by (simp add: snoc_butlast)
    then have "map_of (fsys ?w2) (base @ [last q]) = map_of ?fs (base @ [last q])"
      using l1 [of g] rest [OF g(1)] by simp
    with True lw [of q] show ?thesis by simp
  next
    case False
    note nf = False
    show ?thesis
    proof (cases "q = T @ [last f]")
      case True
      have "q \<notin> set files" using True rest by blast
      moreover have "base @ [last q] = f" using True fb by simp
      ultimately show ?thesis using nf True lw [of q] l1 [of q] f(3) by simp
    next
      case False
      then have "q \<notin> (\<lambda>f. T @ [last f]) ` set (f # files)" using nf by auto
      then show ?thesis using nf lw [of q] l1 [of q] False by auto
    qed
  qed
  with step r dw show ?case by auto
qed

lemma type_folder_path_snoc:
  "type_folder_path base g = base @ [type_folder_name (fst g) (length (snd g))]"
  by (simp add: type_folder_path_def pjoin_def type_folder_name_def)

lemma type_folder_path_facts:
  "type_folder_path base g \<noteq> []" "butlast (type_folder_path base g) = base"
  "length (type_folder_path base g) = Suc (length base)"
  by (simp_all add: type_folder_path_snoc)

lemma length_child: "f \<noteq> [] \<Longrightarrow> butlast f = base \<Longrightarrow> length f = Suc (length base)"
  by (cases f rule: rev_cases) auto

lemma movable_frame:
  assumes "movable fs base f"
      and same: "map_of fs' f = map_of fs f"
      and new: "\<And>q. map_of fs' q \<noteq> None \<Longrightarrow> map_of fs q = None \<Longrightarrow> \<not> prefix f q"
  shows "movable fs' base f"
  using assms unfolding movable_def leaf_def by metis

lemma vacant_frame:
  assumes "vacant fs p"
      and new: "\<And>q. map_of fs' q \<noteq> None \<Longrightarrow> map_of fs q = None \<Longrightarrow> \<not> prefix p q"
  shows "vacant fs' p"
  using assms unfolding vacant_def by metis

lemma move_group_effect:
  assumes d: "distinct (map fst (fsys w))"
      and T: "vacant (fsys w) T" "T \<noteq> []" "butlast T = base"
      and b: "map_of (fsys w) base = Some Dir"
      and fl: "distinct files" "\<forall>f\<in>set files. movable (fsys w) base f"
  shows "\<exists>w'. (case create_folder w T of Inl e \<Rightarrow> Inl e | Inr w1 \<Rightarrow> move_files w1 files T) = Inr w'
           \<and> distinct (map fst (fsys w')) \<and>
           (\<forall>q. map_of (fsys w') q =
              (if q = T then Some Dir
               else if q \<in> (\<lambda>f. T @ [last f]) ` set files then map_of (fsys w) (base @ [last q])
               else if q \<in> set files then None else map_of (fsys w) q))"
proof -
  let ?fs = "fsys w"
  let ?w1 = "(say (CreatingFolder T) w)\<lparr>fsys := ?fs @ [(T, Dir)]\<rparr>"
  have Tn: "map_of ?fs T = None" using T(1) by (simp add: vacant_def)
  have lenT: "length T = Suc (length base)" using T(2,3) by (rule length_child)
  have c: "create_folder w T = Inr ?w1"
    using Tn T(2) b T(3) by (simp add: create_folder_fresh)
  have l1: "\<And>q. map_of (fsys ?w1) q = (if q = T then Some Dir else map_of ?fs q)"
    using lookup_snoc [OF Tn] by (simp del: map_of_append)
  have d1: "distinct (map fst (fsys ?w1))"
    using distinct_snoc [OF Tn d] by simp
  have T1: "map_of (fsys ?w1) T = Some Dir" using l1 by simp
  have fl1: "\<forall>f\<in>set files. f \<noteq> [] \<and> butlast f = base
                 \<and> (\<exists>c. map_of (fsys ?w1) f = Some (File c))
                 \<and> leaf (fsys ?w1) f \<and> vacant (fsys ?w1) (T @ [last f])"
  proof
    fix f assume f: "f \<in> set files"
    with fl have mv: "movable ?fs base f" by simp
    then have f1: "f \<noteq> []" "butlast f = base" and fc: "\<exists>c. map_of ?fs f = Some (File c)"
      by (auto simp: movable_def)
    have fT: "f \<noteq> T" using fc Tn by auto
    have lenf: "length f = length T" using lenT length_child [OF f1] by simp
    have "movable (fsys ?w1) base f"
    proof (rule movable_frame [OF mv])
      show "map_of (fsys ?w1) f = map_of ?fs f" using l1 [of f] fT by simp
    next
      fix q assume "map_of (fsys ?w1) q \<noteq> None" "map_of ?fs q = None"
      then have q: "q = T" using l1 [of q] by (auto split: if_splits)
      show "\<not> prefix f q"
      proof
        assume "prefix f q"
        with q lenf have "f = T" using prefix_equal_length by blast
        with fT show False by simp
      qed
    qed
    moreover have "vacant (fsys ?w1) (T @ [last f])"
      unfolding vacant_def
    proof (intro allI impI)
      fix q assume p: "prefix (T @ [last f]) q"
      then have "prefix T q" by (auto simp: prefix_def)
      then have "map_of ?fs q = None" using T(1) by (simp add: vacant_def)
      moreover have "q \<noteq> T"
      proof
        assume "q = T"
        with p have "length (T @ [last f]) \<le> length T" using prefix_length_le by blast
        then show False by simp
      qed
      ultimately show "map_of (fsys ?w1) q = None" using l1 [of q] by simp
    qed
    ultimately show "f \<noteq> [] \<and> butlast f = base
                 \<and> (\<exists>c. map_of (fsys ?w1) f = Some (File c))
                 \<and> leaf (fsys ?w1) f \<and> vacant (fsys ?w1) (T @ [last f])"
      by (simp add: movable_def)
  qed
  from move_files_effect [OF d1 T1 T(2,3) fl(1) fl1] obtain w' where
    r: "move_files ?w1 files T = Inr w'" and dw: "distinct (map fst (fsys w'))"
    and lw: "\<And>q. map_of (fsys w') q =
              (if q \<in> (\<lambda>f. T @ [last f]) ` set files then map_of (fsys ?w1) (base @ [last q])
               else if q \<in> set files then None else map_of (fsys ?w1) q)"
    by blast
  have "map_of (fsys w') q =
              (if q = T then Some Dir
               else if q \<in> (\<lambda>f. T @ [last f]) ` set files then map_of ?fs (base @ [last q])
               else if q \<in> set files then None else map_of ?fs q)" for q
  proof (cases "q = T")
    case True
    have "T \<notin> (\<lambda>f. T @ [last f]) ` set files" by auto
    moreover have "T \<notin> set files" using fl(2) Tn by (auto simp: movable_def)
    ultimately show ?thesis using True lw [of q] l1 [of q] by simp
  next
    case False
    have "base @ [last q] \<noteq> T" if "q \<in> (\<lambda>f. T @ [last f]) ` set files"
    proof -
      from that obtain f where f: "f \<in> set files" "q = T @ [last f]" by auto
      with fl(2) have "movable ?fs base f" by simp
      then have "base @ [last f] = f" and "\<exists>c. map_of ?fs f = Some (File c)"
        by (auto simp: movable_def snoc_butlast)
      with Tn f show ?thesis by auto
    qed
    then show ?thesis using False lw [of q] l1 by auto
  qed
  with c r dw show ?thesis by auto
qed

lemma move_groups_effect:
  assumes d: "distinct (map fst (fsys w))"
      and b: "map_of (fsys w) base = Some Dir"
      and v: "\<forall>g\<in>set groups. vacant (fsys w) (type_folder_path base g)"
      and mv: "\<forall>f\<in>set (concat (map snd groups)). movable (fsys w) base f"
      and df: "distinct (concat (map snd groups))"
      and dt: "distinct (map (type_folder_path base) groups)"
  shows "\<exists>w'. move_groups w base groups = Inr w' \<and> distinct (map fst (fsys w')) \<and>
     (\<forall>q. map_of (fsys w') q =
        (if q \<in> type_folder_path base ` set groups then Some Dir
         else if \<exists>g\<in>set groups. q \<in> (\<lambda>f. type_folder_path base g @ [last f]) ` set (snd g)
              then map_of (fsys w) (base @ [last q])
         else if q \<in> set (concat (map snd groups)) then None
         else map_of (fsys w) q))"
  using assms
proof (induction groups arbitrary: w)
  case Nil
  then show ?case by simp
next
  case (Cons g groups)
  let ?fs = "fsys w"
  let ?T = "type_folder_path base g"
  let ?files = "snd g"
  let ?later = "set (concat (map snd groups))"
  have g: "g = (fst g, snd g)" by simp
  have lenT: "\<And>h. length (type_folder_path base h) = Suc (length base)"
    by (rule type_folder_path_facts)
  have Tfresh: "\<And>h. h \<in> set groups \<Longrightarrow> type_folder_path base h \<noteq> ?T"
  proof -
    fix h assume "h \<in> set groups"
    then have "type_folder_path base h \<in> type_folder_path base ` set groups" by (rule imageI)
    moreover have "?T \<notin> type_folder_path base ` set groups" using Cons.prems(6) by simp
    ultimately show "type_folder_path base h \<noteq> ?T" by metis
  qed
  have vT: "vacant ?fs ?T" using Cons.prems(3) by simp
  have Tn: "map_of ?fs ?T = None" using vT by (simp add: vacant_def)
  have fl: "distinct ?files" "\<forall>f\<in>set ?files. movable ?fs base f"
    using Cons.prems(4,5) by auto
  have mvl: "\<And>f. f \<in> ?later \<Longrightarrow> movable ?fs base f" using Cons.prems(4) by auto
  have facts: "length f = Suc (length base) \<and> base @ [last f] = f \<and> map_of ?fs f \<noteq> None
               \<and> f \<noteq> ?T"
    if "movable ?fs base f" for f
    using that Tn by (auto simp: movable_def length_child snoc_butlast)
  from move_group_effect [OF Cons.prems(1) vT type_folder_path_facts(1,2) Cons.prems(2) fl]
  obtain w2 where
    s: "(case create_folder w ?T of Inl e \<Rightarrow> Inl e | Inr w1 \<Rightarrow> move_files w1 ?files ?T) = Inr w2"
    and d2: "distinct (map fst (fsys w2))"
    and l2: "\<And>q. map_of (fsys w2) q =
              (if q = ?T then Some Dir
               else if q \<in> (\<lambda>f. ?T @ [last f]) ` set ?files then map_of ?fs (base @ [last q])
               else if q \<in> set ?files then None else map_of ?fs q)"
    by blast
  have step: "move_groups w base (g # groups) = move_groups w2 base groups"
  proof -
    have "move_groups w base ((fst g, snd g) # groups) = move_groups w2 base groups"
      using s unfolding move_groups.simps type_folder_path_def Let_def
      by (auto split: sum.splits)
    then show ?thesis by simp
  qed
  have new: "q = ?T \<or> (\<exists>x. q = ?T @ [x])"
    if "map_of (fsys w2) q \<noteq> None" "map_of ?fs q = None" for q
    using that l2 [of q] by (auto split: if_splits)
  have disjoint: "f \<notin> set ?files" if "f \<in> ?later" for f
    using that Cons.prems(5) by auto
  have same: "map_of (fsys w2) f = map_of ?fs f" if f: "f \<in> ?later" for f
  proof -
    note ff = facts [OF mvl [OF f]]
    have "f \<notin> (\<lambda>f. ?T @ [last f]) ` set ?files"
    proof
      assume "f \<in> (\<lambda>f. ?T @ [last f]) ` set ?files"
      then obtain x where e: "f = ?T @ [x]" by auto
      have "length f = Suc (length ?T)" using arg_cong [OF e, of length] by simp
      with ff lenT [of g] show False by simp
    qed
    with ff disjoint [OF f] l2 [of f] show ?thesis by simp
  qed
  have b2: "map_of (fsys w2) base = Some Dir"
  proof -
    have "base \<noteq> ?T" using lenT [of g] by auto
    moreover have "base \<notin> (\<lambda>f. ?T @ [last f]) ` set ?files"
    proof
      assume "base \<in> (\<lambda>f. ?T @ [last f]) ` set ?files"
      then obtain x where e: "base = ?T @ [x]" by auto
      have "length base = Suc (length ?T)" using arg_cong [OF e, of length] by simp
      with lenT [of g] show False by simp
    qed
    moreover have "base \<notin> set ?files"
    proof
      assume "base \<in> set ?files"
      with fl(2) facts [of base] show False by auto
    qed
    ultimately show ?thesis using l2 [of base] Cons.prems(2) by simp
  qed
  have v2: "\<forall>h\<in>set groups. vacant (fsys w2) (type_folder_path base h)"
  proof
    fix h assume h: "h \<in> set groups"
    have hT: "type_folder_path base h \<noteq> ?T" using h by (rule Tfresh)
    have "vacant ?fs (type_folder_path base h)" using h Cons.prems(3) by simp
    then show "vacant (fsys w2) (type_folder_path base h)"
    proof (rule vacant_frame)
      fix q assume "map_of (fsys w2) q \<noteq> None" "map_of ?fs q = None"
      from new [OF this] show "\<not> prefix (type_folder_path base h) q"
      proof
        assume q: "q = ?T"
        show ?thesis
        proof
          assume "prefix (type_folder_path base h) q"
          with q lenT [of h] lenT [of g] have "type_folder_path base h = ?T"
            using prefix_equal_length [of "type_folder_path base h" ?T] by simp
          with hT show False by simp
        qed
      next
        assume "\<exists>x. q = ?T @ [x]"
        then obtain x where q: "q = ?T @ [x]" by blast
        show ?thesis
        proof
          assume "prefix (type_folder_path base h) q"
          with q lenT [of h] lenT [of g] have "type_folder_path base h = ?T"
            using prefix_same_length [of "type_folder_path base h" ?T x] by simp
          with hT show False by simp
        qed
      qed
    qed
  qed
  have mv2: "\<forall>f\<in>?later. movable (fsys w2) base f"
  proof
    fix f assume f: "f \<in> ?later"
    note ff = facts [OF mvl [OF f]]
    show "movable (fsys w2) base f"
    proof (rule movable_frame [OF mvl [OF f] same [OF f]])
      fix q assume "map_of (fsys w2) q \<noteq> None" "map_of ?fs q = None"
      from new [OF this] show "\<not> prefix f q"
      proof
        assume q: "q = ?T"
        show ?thesis
        proof
          assume "prefix f q"
          with q ff lenT [of g] have "f = ?T"
            using prefix_equal_length [of f ?T] by simp
          with ff show False by simp
        qed
      next
        assume "\<exists>x. q = ?T @ [x]"
        then obtain x where q: "q = ?T @ [x]" by blast
        show ?thesis
        proof
          assume "prefix f q"
          with q ff lenT [of g] have "f = ?T"
            using prefix_same_length [of f ?T x] by simp
          with ff show False by simp
        qed
      qed
    qed
  qed
  have df2: "distinct (concat (map snd groups))" using Cons.prems(5) by simp
  have dt2: "distinct (map (type_folder_path base) groups)" using Cons.prems(6) by simp
  from Cons.IH [OF d2 b2 v2 mv2 df2 dt2] obtain w' where
    r: "move_groups w2 base groups = Inr w'" and dw: "distinct (map fst (fsys w'))"
    and lw: "\<And>q. map_of (fsys w') q =
        (if q \<in> type_folder_path base ` set groups then Some Dir
         else if \<exists>h\<in>set groups. q \<in> (\<lambda>f. type_folder_path base h @ [last f]) ` set (snd h)
              then map_of (fsys w2) (base @ [last q])
         else if q \<in> ?later then None
         else map_of (fsys w2) q)"
    by blast
  have final: "map_of (fsys w') q =
        (if q \<in> type_folder_path base ` set (g # groups) then Some Dir
         else if \<exists>h\<in>set (g # groups). q \<in> (\<lambda>f. type_folder_path base h @ [last f]) ` set (snd h)
              then map_of ?fs (base @ [last q])
         else if q \<in> set (concat (map snd (g # groups))) then None
         else map_of ?fs q)" for q
  proof -
    let ?img1 = "q \<in> (\<lambda>f. ?T @ [last f]) ` set ?files"
    let ?img2 = "\<exists>h\<in>set groups. q \<in> (\<lambda>f. type_folder_path base h @ [last f]) ` set (snd h)"
    let ?tg2 = "q \<in> type_folder_path base ` set groups"
    have len_img1: "length q = Suc (Suc (length base))" if ?img1
      using that lenT [of g] by auto
    have len_img2: "length q = Suc (Suc (length base))" if ?img2
      using that lenT by auto
    have len_tg2: "length q = Suc (length base)" if ?tg2
      using that lenT by auto
    have len_later: "length q = Suc (length base)" if "q \<in> ?later"
      using facts [OF mvl [OF that]] by simp
    have len_files: "length q = Suc (length base)" if "q \<in> set ?files"
      using facts [of q] fl(2) that by simp
    consider (T) "q = ?T" | (tg2) "q \<noteq> ?T" ?tg2
      | (img1) "q \<noteq> ?T" "\<not> ?tg2" ?img1
      | (img2) "q \<noteq> ?T" "\<not> ?tg2" "\<not> ?img1" ?img2
      | (other) "q \<noteq> ?T" "\<not> ?tg2" "\<not> ?img1" "\<not> ?img2"
      by blast
    then show ?thesis
    proof cases
      case T
      have "\<not> ?tg2"
      proof
        assume ?tg2
        then obtain h where "h \<in> set groups" "q = type_folder_path base h" by auto
        with Tfresh [of h] T show False by simp
      qed
      moreover have "\<not> ?img2" using len_img2 T lenT [of g] by auto
      moreover have "q \<notin> ?later" using facts [OF mvl] T by blast
      ultimately show ?thesis using T lw [of q] l2 [of q] by simp
    next
      case tg2
      then show ?thesis using lw [of q] by simp
    next
      case img1
      have a: "\<not> ?img2"
      proof
        assume ?img2
        then obtain h f where h: "h \<in> set groups" "q = type_folder_path base h @ [last f]"
          by auto
        from img1(3) obtain f' where "q = ?T @ [last f']" by auto
        with h have "type_folder_path base h = ?T" by simp
        with Tfresh [OF h(1)] show False by simp
      qed
      have c: "q \<notin> ?later" using len_later len_img1 [OF img1(3)] by auto
      show ?thesis using img1 a c lw [of q] l2 [of q] by simp
    next
      case img2
      then obtain h f where h: "h \<in> set groups" "f \<in> set (snd h)"
        "q = type_folder_path base h @ [last f]" by auto
      then have fl2: "f \<in> ?later" by auto
      have "base @ [last q] = f" using h facts [OF mvl [OF fl2]] by simp
      then have "map_of (fsys w2) (base @ [last q]) = map_of ?fs (base @ [last q])"
        using same [OF fl2] by simp
      then show ?thesis using img2 lw [of q] by auto
    next
      case other
      have e: "\<not> (\<exists>h\<in>set (g # groups). q \<in> (\<lambda>f. type_folder_path base h @ [last f]) ` set (snd h))"
        using other by simp
      have t: "q \<notin> type_folder_path base ` set (g # groups)" using other by simp
      show ?thesis
      proof (cases "q \<in> ?later")
        case True
        then show ?thesis using other lw [of q] e t by simp
      next
        case False
        then show ?thesis using other lw [of q] l2 [of q] e t by simp
      qed
    qed
  qed
  from step r dw final show ?case by auto
qed

lemma lookup_inventory_add:
  "map_of (inventory_add groups ext file) k =
     (if k = ext then Some (case map_of groups ext of None \<Rightarrow> [file] | Some v \<Rightarrow> v @ [file])
      else map_of groups k)"
  by (induction groups ext "file" rule: inventory_add.induct) auto

lemma lookup_build_inventory:
  "map_of (build_inventory fs files groups) k =
     (case map_of groups k of
        Some v \<Rightarrow> Some (v @ filter (\<lambda>f. is_file fs f \<and> ext_of f = k) files)
      | None \<Rightarrow> if filter (\<lambda>f. is_file fs f \<and> ext_of f = k) files = [] then None
                else Some (filter (\<lambda>f. is_file fs f \<and> ext_of f = k) files))"
proof (induction files arbitrary: groups)
  case Nil
  show ?case by (simp split: option.splits)
next
  case (Cons f files)
  show ?case
    by (simp add: Cons.IH lookup_inventory_add ext_of_def split: option.splits)
qed

lemma files_inventory_add:
  "set (concat (map snd (inventory_add groups ext file))) =
     insert file (set (concat (map snd groups)))"
  by (induction groups ext "file" rule: inventory_add.induct) auto

lemma files_inventory_add_UN:
  "(\<Union>g\<in>set (inventory_add groups ext file). set (snd g)) =
     insert file (\<Union>g\<in>set groups. set (snd g))"
  using files_inventory_add [of groups ext "file"] by simp

lemma distinct_inventory_add:
  "distinct (concat (map snd groups)) \<Longrightarrow> file \<notin> set (concat (map snd groups)) \<Longrightarrow>
   distinct (concat (map snd (inventory_add groups ext file)))"
proof (induction groups ext "file" rule: inventory_add.induct)
  case (1 ext f)
  show ?case by simp
next
  case (2 k fs groups ext f)
  show ?case
  proof (cases "k = ext")
    case True
    with 2 show ?thesis by auto
  next
    case False
    have "distinct (concat (map snd (inventory_add groups ext f)))"
      using 2 False by simp
    moreover have "set fs \<inter> (\<Union>g\<in>set (inventory_add groups ext f). set (snd g)) = {}"
      unfolding files_inventory_add_UN using "2.prems" by auto
    ultimately show ?thesis using False "2.prems" by simp
  qed
qed

lemma files_build_inventory:
  "distinct files \<Longrightarrow> distinct (concat (map snd groups)) \<Longrightarrow>
   set files \<inter> set (concat (map snd groups)) = {} \<Longrightarrow>
   distinct (concat (map snd (build_inventory fs files groups)))
   \<and> set (concat (map snd (build_inventory fs files groups))) =
       set (concat (map snd groups)) \<union> {f \<in> set files. is_file fs f}"
proof (induction files arbitrary: groups)
  case Nil
  then show ?case by simp
next
  case (Cons f files)
  let ?g = "if is_file fs f then inventory_add groups (lower (path_suffix (path_name f))) f
            else groups"
  have f: "f \<notin> set (concat (map snd groups))" "f \<notin> set files" using Cons.prems by auto
  have 1: "distinct (concat (map snd ?g))"
    using Cons.prems(2) f(1) by (simp add: distinct_inventory_add)
  have 2: "set (concat (map snd ?g)) =
           (if is_file fs f then insert f (set (concat (map snd groups)))
            else set (concat (map snd groups)))"
    using files_inventory_add [of groups _ f] by simp
  have 3: "set files \<inter> set (concat (map snd ?g)) = {}"
    unfolding 2 using Cons.prems(3) f(2) by auto
  have 4: "distinct files" using Cons.prems(1) by simp
  from Cons.IH [OF 4 1 3] show ?case unfolding 2 by auto
qed

lemma children_facts: "f \<in> set (children fs base) \<Longrightarrow> f \<noteq> [] \<and> butlast f = base"
  by (simp add: children_def)

lemma children_set:
  "set (children fs p) = {q. q \<noteq> [] \<and> butlast q = p \<and> map_of fs q \<noteq> None}"
  by (auto simp: children_def map_of_eq_None_iff)

lemma children_distinct: "distinct (map fst fs) \<Longrightarrow> distinct (children fs p)"
  by (simp add: children_def)

lemma inventory_group:
  assumes "(e, files) \<in> set (build_inventory fs (children fs base) [])"
  shows "files = files_with_ext fs base e \<and> files \<noteq> []"
proof -
  have "distinct (map fst (build_inventory fs (children fs base) []))"
    using keys_build_inventory [of "[]" fs "children fs base"] by simp
  with assms have "map_of (build_inventory fs (children fs base) []) e = Some files"
    by simp
  then show ?thesis
    by (simp add: lookup_build_inventory files_with_ext_def split: if_splits)
qed

lemma inventory_keys:
  "distinct (map fst (build_inventory fs (children fs base) []))"
  "set (map fst (build_inventory fs (children fs base) [])) = exts_in fs base"
  using keys_build_inventory [of "[]" fs "children fs base"]
  by (auto simp: exts_in_def ext_of_def)

lemma inventory_files:
  assumes "distinct (map fst fs)"
  shows "distinct (concat (map snd (build_inventory fs (children fs base) [])))"
    and "set (concat (map snd (build_inventory fs (children fs base) []))) =
           {f \<in> set (children fs base). is_file fs f}"
  using files_build_inventory [of "children fs base" "[]" fs] children_distinct [OF assms]
  by simp_all

lemma inventory_folder:
  assumes "g \<in> set (build_inventory fs (children fs base) [])"
  shows "type_folder_path base g = folder_of fs base (fst g)"
proof -
  from assms have "(fst g, snd g) \<in> set (build_inventory fs (children fs base) [])" by simp
  then have "snd g = files_with_ext fs base (fst g)" using inventory_group by blast
  then show ?thesis by (simp add: type_folder_path_snoc folder_of_def)
qed

lemma is_file_lookup: "is_file fs f = (\<exists>c. map_of fs f = Some (File c))"
  by (auto simp: is_file_def split: option.splits entry.splits)

lemma categorize_effect:
  assumes wf: "wf_fs (fsys w)"
      and b: "is_dir (fsys w) base"
      and free: "folders_free (fsys w) base"
  shows "\<exists>w'. categorize_files_by_type w base =
                 Inr (w', map fst (build_inventory (fsys w) (children (fsys w) base) []))
           \<and> (\<forall>f\<in>set (children (fsys w) base). is_file (fsys w) f \<longrightarrow>
                 filed (fsys w) (fsys w') base f)"
proof -
  let ?fs = "fsys w"
  let ?inv = "build_inventory ?fs (children ?fs base) []"
  let ?w0 = "say (CategorizingFiles base) w"
  have d: "distinct (map fst ?fs)" using wf by (simp add: wf_fs_def)
  have bD: "map_of ?fs base = Some Dir"
    using b by (auto simp: is_dir_def split: option.splits entry.splits)
  have tf: "\<And>g. g \<in> set ?inv \<Longrightarrow> type_folder_path base g = folder_of ?fs base (fst g)"
    by (rule inventory_folder)
  have ext_in: "\<And>g. g \<in> set ?inv \<Longrightarrow> fst g \<in> exts_in ?fs base"
    using inventory_keys(2) [of ?fs base] by auto
  have v: "\<forall>g\<in>set ?inv. vacant (fsys ?w0) (type_folder_path base g)"
  proof
    fix g assume g: "g \<in> set ?inv"
    have "map_of ?fs (folder_of ?fs base (fst g)) = None"
      using free ext_in [OF g] by (simp add: folders_free_def path_exists_def)
    with wf have "vacant ?fs (folder_of ?fs base (fst g))" by (rule wf_vacant)
    then show "vacant (fsys ?w0) (type_folder_path base g)" using tf [OF g] by simp
  qed
  have files: "set (concat (map snd ?inv)) = {f \<in> set (children ?fs base). is_file ?fs f}"
    and df: "distinct (concat (map snd ?inv))"
    using inventory_files [OF d] by simp_all
  have mv: "\<forall>f\<in>set (concat (map snd ?inv)). movable (fsys ?w0) base f"
  proof
    fix f assume "f \<in> set (concat (map snd ?inv))"
    then have f: "f \<in> set (children ?fs base)" "is_file ?fs f" using files by auto
    from f(2) obtain c where c: "map_of ?fs f = Some (File c)" by (auto simp: is_file_lookup)
    with wf have "leaf ?fs f" by (rule wf_leaf)
    with c children_facts [OF f(1)] show "movable (fsys ?w0) base f"
      by (simp add: movable_def)
  qed
  have dt: "distinct (map (type_folder_path base) ?inv)"
  proof -
    have e: "map (type_folder_path base) ?inv = map (folder_of ?fs base) (map fst ?inv)"
      using tf by simp
    have "inj_on (folder_of ?fs base) (set (map fst ?inv))"
      unfolding inventory_keys(2) using free by (simp add: folders_free_def)
    with inventory_keys(1) [of ?fs base]
    have "distinct (map (folder_of ?fs base) (map fst ?inv))"
      unfolding distinct_map [of "folder_of ?fs base" "map fst ?inv"] by blast
    then show ?thesis unfolding e .
  qed
  have d0: "distinct (map fst (fsys ?w0))" and b0: "map_of (fsys ?w0) base = Some Dir"
    using d bD by simp_all
  from move_groups_effect [OF d0 b0 v mv df dt] obtain w1 where
    r: "move_groups ?w0 base ?inv = Inr w1" and d1: "distinct (map fst (fsys w1))"
    and l: "\<And>q. map_of (fsys w1) q =
        (if q \<in> type_folder_path base ` set ?inv then Some Dir
         else if \<exists>g\<in>set ?inv. q \<in> (\<lambda>f. type_folder_path base g @ [last f]) ` set (snd g)
              then map_of ?fs (base @ [last q])
         else if q \<in> set (concat (map snd ?inv)) then None
         else map_of ?fs q)"
    by (auto simp del: map_map)
  let ?w' = "say (FileTypesFound (map fst ?inv)) w1"
  have run: "categorize_files_by_type w base = Inr (?w', map fst ?inv)"
    using bD r by (simp add: categorize_files_by_type_def iterdir_def Let_def)
  have "filed ?fs (fsys ?w') base f" if f: "f \<in> set (children ?fs base)" "is_file ?fs f" for f
  proof -
    let ?e = "ext_of f"
    let ?T = "folder_of ?fs base ?e"
    let ?files = "files_with_ext ?fs base ?e"
    have f1: "f \<noteq> []" "butlast f = base" using children_facts [OF f(1)] by simp_all
    have fb: "base @ [last f] = f" using f1 by (rule snoc_butlast)
    have "?e \<in> set (map fst ?inv)"
      unfolding inventory_keys(2) using f by (auto simp: exts_in_def)
    then obtain fl where "(?e, fl) \<in> set ?inv" by auto
    then have g: "(?e, ?files) \<in> set ?inv" using inventory_group by blast
    have T: "type_folder_path base (?e, ?files) = ?T" using tf [OF g] by simp
    have fin: "f \<in> set ?files" using f by (simp add: files_with_ext_def)
    have lenT: "length ?T = Suc (length base)" by (simp add: folder_of_def)
    have lenf: "\<And>x. x \<in> set (concat (map snd ?inv)) \<Longrightarrow> length x = Suc (length base)"
      using files children_facts length_child by blast
    have lentg: "\<And>q. q \<in> type_folder_path base ` set ?inv \<Longrightarrow> length q = Suc (length base)"
      using type_folder_path_facts(3) by auto
    have Tin: "?T \<in> type_folder_path base ` set ?inv" using g T by force
    \<comment> \<open>the folder is a directory\<close>
    have 1: "is_dir (fsys ?w') ?T" using l [of ?T] Tin by (simp add: is_dir_def)
    \<comment> \<open>the file is in it\<close>
    have 2: "map_of (fsys ?w') (?T @ [path_name f]) = map_of ?fs f"
    proof -
      let ?q = "?T @ [last f]"
      have "?q \<notin> type_folder_path base ` set ?inv"
      proof
        assume "?q \<in> type_folder_path base ` set ?inv"
        from lentg [OF this] lenT show False by simp
      qed
      moreover have "\<exists>g\<in>set ?inv. ?q \<in> (\<lambda>f. type_folder_path base g @ [last f]) ` set (snd g)"
        using g fin T by force
      ultimately have "map_of (fsys w1) ?q = map_of ?fs (base @ [last ?q])"
        using l [of ?q] by simp
      then show ?thesis using fb f1 by (simp add: path_name_def)
    qed
    \<comment> \<open>and no longer in the directory\<close>
    have 3: "\<not> path_exists (fsys ?w') f"
    proof -
      from f(2) obtain c where c: "map_of ?fs f = Some (File c)" by (auto simp: is_file_lookup)
      have "f \<notin> type_folder_path base ` set ?inv"
      proof
        assume "f \<in> type_folder_path base ` set ?inv"
        then obtain h where h: "h \<in> set ?inv" "f = type_folder_path base h" by auto
        have "map_of ?fs (type_folder_path base h) = None"
          using v h(1) by (simp add: vacant_def)
        with h c show False by simp
      qed
      moreover have "\<not> (\<exists>g\<in>set ?inv. f \<in> (\<lambda>f. type_folder_path base g @ [last f]) ` set (snd g))"
      proof
        assume "\<exists>g\<in>set ?inv. f \<in> (\<lambda>f. type_folder_path base g @ [last f]) ` set (snd g)"
        then obtain h x where e: "f = type_folder_path base h @ [x]" by auto
        have "length f = Suc (Suc (length base))"
          using arg_cong [OF e, of length] type_folder_path_facts(3) [of base h] by simp
        with length_child [OF f1] show False by simp
      qed
      moreover have "f \<in> set (concat (map snd ?inv))" using files f by simp
      ultimately show ?thesis using l [of f] by (simp add: path_exists_def)
    qed
    \<comment> \<open>the folder holds as many entries as its name says\<close>
    have 4: "length (children (fsys ?w') ?T) = length ?files"
    proof -
      have dfiles: "distinct ?files"
        using children_distinct [OF d] by (simp add: files_with_ext_def)
      have fb': "\<And>x. x \<in> set ?files \<Longrightarrow> base @ [last x] = x"
        using children_facts snoc_butlast by (fastforce simp: files_with_ext_def)
      have inj: "inj_on (\<lambda>x. ?T @ [last x]) (set ?files)"
      proof (rule inj_onI)
        fix x y assume x: "x \<in> set ?files" and y: "y \<in> set ?files"
          and e: "?T @ [last x] = ?T @ [last y]"
        from e have "last x = last y" by simp
        with fb' [OF x] fb' [OF y] show "x = y" by metis
      qed
      have "set (children (fsys ?w') ?T) = (\<lambda>x. ?T @ [last x]) ` set ?files"
      proof (intro set_eqI iffI)
        fix q assume "q \<in> set (children (fsys ?w') ?T)"
        then have q: "q \<noteq> []" "butlast q = ?T" "map_of (fsys w1) q \<noteq> None"
          by (simp_all add: children_set)
        have qT: "?T @ [last q] = q" using q(1,2) by (rule snoc_butlast)
        have lenq: "length q = Suc (Suc (length base))"
          using arg_cong [OF qT, of length] lenT by simp
        have nt: "q \<notin> type_folder_path base ` set ?inv"
        proof
          assume "q \<in> type_folder_path base ` set ?inv"
          from lentg [OF this] lenq show False by simp
        qed
        have nf: "q \<notin> set (concat (map snd ?inv))"
        proof
          assume "q \<in> set (concat (map snd ?inv))"
          from lenf [OF this] lenq show False by simp
        qed
        have "map_of ?fs q = None"
        proof -
          have "vacant ?fs ?T" using v g T by force
          moreover have "prefix ?T q" using qT by (metis prefixI)
          ultimately show ?thesis by (simp add: vacant_def)
        qed
        with q(3) nt nf l [of q] have
          "\<exists>g\<in>set ?inv. q \<in> (\<lambda>f. type_folder_path base g @ [last f]) ` set (snd g)"
          by (auto split: if_splits)
        then obtain h x where h: "h \<in> set ?inv" "x \<in> set (snd h)"
          "q = type_folder_path base h @ [last x]" by auto
        then have "type_folder_path base h = ?T" using q(2) by simp
        then have "folder_of ?fs base (fst h) = folder_of ?fs base ?e" using tf [OF h(1)] by simp
        moreover have "inj_on (folder_of ?fs base) (exts_in ?fs base)"
          using free by (simp add: folders_free_def)
        ultimately have "fst h = ?e" using ext_in [OF h(1)] ext_in [OF g]
          by (auto dest: inj_onD)
        then have "(?e, snd h) \<in> set ?inv" using h(1) by (metis prod.collapse)
        then have "snd h = ?files" using inventory_group by blast
        with h \<open>type_folder_path base h = ?T\<close> show "q \<in> (\<lambda>x. ?T @ [last x]) ` set ?files"
          by simp
      next
        fix q assume "q \<in> (\<lambda>x. ?T @ [last x]) ` set ?files"
        then obtain x where x: "x \<in> set ?files" "q = ?T @ [last x]" by auto
        have "q \<notin> type_folder_path base ` set ?inv"
        proof
          assume "q \<in> type_folder_path base ` set ?inv"
          from lentg [OF this] x(2) lenT show False by simp
        qed
        moreover have "\<exists>g\<in>set ?inv. q \<in> (\<lambda>f. type_folder_path base g @ [last f]) ` set (snd g)"
          using g x T by force
        ultimately have "map_of (fsys w1) q = map_of ?fs (base @ [last q])"
          using l [of q] by simp
        moreover have "base @ [last q] = x" using x fb' by simp
        moreover have "is_file ?fs x" using x(1) by (simp add: files_with_ext_def)
        ultimately have "map_of (fsys w1) q \<noteq> None" by (auto simp: is_file_lookup)
        then show "q \<in> set (children (fsys ?w') ?T)" using x(2) by (simp add: children_set)
      qed
      moreover have "distinct (children (fsys ?w') ?T)"
        using d1 by (simp add: children_distinct)
      ultimately have "length (children (fsys ?w') ?T) = card ((\<lambda>x. ?T @ [last x]) ` set ?files)"
        using distinct_card by metis
      also have "\<dots> = card (set ?files)" using inj by (rule card_image)
      also have "\<dots> = length ?files" using dfiles by (rule distinct_card)
      finally show ?thesis .
    qed
    from 1 2 3 4 show ?thesis by (simp add: filed_def)
  qed
  with run show ?thesis by blast
qed

subsection \<open>The claims about categorization\<close>

lemmas eval_defs2 = clash_fs_def lone_fs_def eval_defs wf_fs_def ext_of_def files_with_ext_def folder_of_def exts_in_def
  folders_free_def plain_def notes_fs_def

text \<open>
  C4 (as amended).  In a well-formed file system, for a directory in which no entry
  bears the name of a type folder to be made and no two extensions get the same folder
  name, categorization succeeds, and for every regular file \<open>f\<close> directly in the
  directory, with extension \<open>E\<close>: the folder named \<open>E\<close> without its dot, in upper
  case, then an underscore and the number of files that had extension \<open>E\<close>, is a
  directory directly under the directory; \<open>f\<close> is in it under its own name, with its
  content, and gone from the directory; and the folder holds exactly that number of
  entries.
\<close>

theorem categorize_files_every_extension:
  assumes "wf_fs (fsys w)" and "is_dir (fsys w) base_path"
      and "folders_free (fsys w) base_path"
  shows "\<exists>w' file_types.
           categorize_files_by_type w base_path = Inr (w', file_types)
           \<and> (\<forall>f\<in>set (children (fsys w) base_path). is_file (fsys w) f \<longrightarrow>
                 is_dir (fsys w')
                   (base_path @ [upper (drop 1 (ext_of f)) @ ''_'' @
                      str_nat (length (files_with_ext (fsys w) base_path (ext_of f)))])
                 \<and> map_of (fsys w')
                     (base_path @ [upper (drop 1 (ext_of f)) @ ''_'' @
                        str_nat (length (files_with_ext (fsys w) base_path (ext_of f))),
                        path_name f])
                   = map_of (fsys w) f
                 \<and> \<not> path_exists (fsys w') f
                 \<and> length (children (fsys w')
                     (base_path @ [upper (drop 1 (ext_of f)) @ ''_'' @
                        str_nat (length (files_with_ext (fsys w) base_path (ext_of f)))]))
                   = length (files_with_ext (fsys w) base_path (ext_of f)))"
  using categorize_effect [OF assms]
  by (simp add: filed_def folder_of_def type_folder_name_def) blast

theorem categorize_files_every_extension_witness:
  "wf_fs (fsys \<lparr>fsys = scenario_fs plain no_content, out = []\<rparr>)
   \<and> is_dir (fsys \<lparr>fsys = scenario_fs plain no_content, out = []\<rparr>) [''in'']
   \<and> folders_free (fsys \<lparr>fsys = scenario_fs plain no_content, out = []\<rparr>) [''in'']
   \<and> categorize_files_by_type \<lparr>fsys = scenario_fs plain no_content, out = []\<rparr> [''in''] =
       Inr (\<lparr>fsys = [([], Dir), ([''in''], Dir),
                   ([''in'', ''CSV_2'', ''statement_9988.csv''], File plain),
                   ([''in'', ''CSV_2'', ''random.csv''], File no_content),
                   ([''in'', ''CSV_2''], Dir)],
           out = [CategorizingFiles [''in''], CreatingFolder [''in'', ''CSV_2''],
                  MovingFile [''in'', ''statement_9988.csv''] [''in'', ''CSV_2''],
                  MovingFile [''in'', ''random.csv''] [''in'', ''CSV_2''],
                  FileTypesFound [''.csv'']]\<rparr>, [''.csv''])
   \<and> (\<exists>w' file_types.
         categorize_files_by_type \<lparr>fsys = scenario_fs plain no_content, out = []\<rparr> [''in''] =
           Inr (w', file_types)
         \<and> is_dir (fsys w') [''in'', ''CSV_2'']
         \<and> map_of (fsys w') [''in'', ''CSV_2'', ''statement_9988.csv''] = Some (File plain)
         \<and> \<not> path_exists (fsys w') [''in'', ''statement_9988.csv'']
         \<and> length (children (fsys w') [''in'', ''CSV_2'']) = 2)"
proof -
  let ?w = "\<lparr>fsys = scenario_fs plain no_content, out = []\<rparr>"
  let ?f = "[''in'', ''statement_9988.csv'']"
  have h1: "wf_fs (fsys ?w)" by (simp add: eval_defs2)
  have h2: "is_dir (fsys ?w) [''in'']" by (simp add: eval_defs2)
  have h3: "folders_free (fsys ?w) [''in'']"
    by (simp add: eval_defs2 str_nat.simps [of 2])
  have r: "categorize_files_by_type ?w [''in''] =
       Inr (\<lparr>fsys = [([], Dir), ([''in''], Dir),
                   ([''in'', ''CSV_2'', ''statement_9988.csv''], File plain),
                   ([''in'', ''CSV_2'', ''random.csv''], File no_content),
                   ([''in'', ''CSV_2''], Dir)],
           out = [CategorizingFiles [''in''], CreatingFolder [''in'', ''CSV_2''],
                  MovingFile [''in'', ''statement_9988.csv''] [''in'', ''CSV_2''],
                  MovingFile [''in'', ''random.csv''] [''in'', ''CSV_2''],
                  FileTypesFound [''.csv'']]\<rparr>, [''.csv''])"
    by (simp add: eval_defs2)
  have f1: "?f \<in> set (children (fsys ?w) [''in''])" by (simp add: eval_defs2)
  have f2: "is_file (fsys ?w) ?f" by (simp add: eval_defs2)
  have f3: "ext_of ?f = ''.csv''" by (simp add: eval_defs2)
  have f4: "length (files_with_ext (fsys ?w) [''in''] ''.csv'') = 2" by (simp add: eval_defs2)
  have f5: "upper (drop 1 ''.csv'') @ ''_'' @ str_nat 2 = ''CSV_2''"
    by (simp add: eval_defs2)
  have f6: "path_name ?f = ''statement_9988.csv''" by (simp add: eval_defs2)
  have f7: "map_of (fsys ?w) ?f = Some (File plain)" by (simp add: eval_defs2)
  from categorize_files_every_extension [OF h1 h2 h3] obtain w' file_types where
    c: "categorize_files_by_type ?w [''in''] = Inr (w', file_types)"
    and a: "\<forall>f\<in>set (children (fsys ?w) [''in'']). is_file (fsys ?w) f \<longrightarrow>
                 is_dir (fsys w')
                   ([''in''] @ [upper (drop 1 (ext_of f)) @ ''_'' @
                      str_nat (length (files_with_ext (fsys ?w) [''in''] (ext_of f)))])
                 \<and> map_of (fsys w')
                     ([''in''] @ [upper (drop 1 (ext_of f)) @ ''_'' @
                        str_nat (length (files_with_ext (fsys ?w) [''in''] (ext_of f))),
                        path_name f])
                   = map_of (fsys ?w) f
                 \<and> \<not> path_exists (fsys w') f
                 \<and> length (children (fsys w')
                     ([''in''] @ [upper (drop 1 (ext_of f)) @ ''_'' @
                        str_nat (length (files_with_ext (fsys ?w) [''in''] (ext_of f)))]))
                   = length (files_with_ext (fsys ?w) [''in''] (ext_of f))"
    by blast
  from bspec [OF a f1] f2 have
    "is_dir (fsys w') [''in'', ''CSV_2'']
         \<and> map_of (fsys w') [''in'', ''CSV_2'', ''statement_9988.csv''] = Some (File plain)
         \<and> \<not> path_exists (fsys w') ?f
         \<and> length (children (fsys w') [''in'', ''CSV_2'']) = 2"
    unfolding f3 f4 f5 f6 f7 by simp
  with c have "\<exists>w' file_types.
         categorize_files_by_type ?w [''in''] = Inr (w', file_types)
         \<and> is_dir (fsys w') [''in'', ''CSV_2'']
         \<and> map_of (fsys w') [''in'', ''CSV_2'', ''statement_9988.csv''] = Some (File plain)
         \<and> \<not> path_exists (fsys w') ?f
         \<and> length (children (fsys w') [''in'', ''CSV_2'']) = 2"
    by blast
  with h1 h2 h3 r show ?thesis by blast
qed

text \<open>
  The claim as it was stated fails when a file already bears the folder's name.  With
  \<open>a.csv\<close> and an extension-less file \<open>CSV_1\<close>, listed in this order, \<open>create_folder\<close>
  finds that \<open>CSV_1\<close> exists and makes nothing, \<open>shutil.move\<close> renames \<open>a.csv\<close> onto
  the file \<open>CSV_1\<close>, and that file is then moved to \<open>_1\<close>: no folder \<open>CSV_1\<close> exists
  afterwards.
\<close>

theorem categorize_overwrites_a_file_named_like_the_folder:
  "categorize_files_by_type \<lparr>fsys = clash_fs, out = []\<rparr> [] =
     Inr (\<lparr>fsys = [([], Dir), ([''_1'', ''CSV_1''], File plain), ([''_1''], Dir)],
           out = [CategorizingFiles [], MovingFile [''a.csv''] [''CSV_1''],
                  CreatingFolder [''_1''], MovingFile [''CSV_1''] [''_1''],
                  FileTypesFound [''.csv'', []]]\<rparr>,
          [''.csv'', []])
   \<and> \<not> is_dir [([], Dir), ([''_1'', ''CSV_1''], File plain), ([''_1''], Dir)] [''CSV_1'']
   \<and> \<not> path_exists [([], Dir), ([''_1'', ''CSV_1''], File plain), ([''_1''], Dir)]
         [''CSV_1'', ''a.csv'']"
  by (simp add: eval_defs2)

text \<open>
  C10 (as amended).  Under the same conditions, a regular file without suffix is put
  under the key \<open>""\<close>, which is among the file types returned, and is moved into the
  folder named by an underscore and the number of such files; categorization does not
  fail and does not skip the file.
\<close>

theorem extensionless_files_go_to_underscore_folder:
  assumes "wf_fs (fsys w)" and "is_dir (fsys w) base_path"
      and "folders_free (fsys w) base_path"
      and "f \<in> set (children (fsys w) base_path)" and "is_file (fsys w) f"
      and "path_suffix (path_name f) = []"
  shows "\<exists>w' file_types.
           categorize_files_by_type w base_path = Inr (w', file_types)
           \<and> [] \<in> set file_types
           \<and> f \<in> set (files_with_ext (fsys w) base_path [])
           \<and> is_dir (fsys w')
               (base_path @ [''_'' @ str_nat (length (files_with_ext (fsys w) base_path []))])
           \<and> map_of (fsys w')
               (base_path @ [''_'' @ str_nat (length (files_with_ext (fsys w) base_path [])),
                  path_name f])
             = map_of (fsys w) f
           \<and> \<not> path_exists (fsys w') f"
proof -
  have e: "ext_of f = []" using assms(6) by (simp add: ext_of_def lower_def)
  from categorize_effect [OF assms(1-3)] obtain w' where
    c: "categorize_files_by_type w base_path =
          Inr (w', map fst (build_inventory (fsys w) (children (fsys w) base_path) []))"
    and a: "\<forall>f\<in>set (children (fsys w) base_path). is_file (fsys w) f \<longrightarrow>
                 filed (fsys w) (fsys w') base_path f"
    by blast
  from a assms(4,5) have "filed (fsys w) (fsys w') base_path f" by blast
  then have 1: "is_dir (fsys w')
               (base_path @ [''_'' @ str_nat (length (files_with_ext (fsys w) base_path []))])
           \<and> map_of (fsys w')
               (base_path @ [''_'' @ str_nat (length (files_with_ext (fsys w) base_path [])),
                  path_name f])
             = map_of (fsys w) f
           \<and> \<not> path_exists (fsys w') f"
    unfolding filed_def e by (simp add: folder_of_def type_folder_name_def upper_def)
  have "[] \<in> exts_in (fsys w) base_path"
    using assms(4,5) e by (force simp: exts_in_def)
  then have 2: "[] \<in> set (map fst (build_inventory (fsys w) (children (fsys w) base_path) []))"
    unfolding inventory_keys(2) .
  have 3: "f \<in> set (files_with_ext (fsys w) base_path [])"
    using assms(4,5) e by (simp add: files_with_ext_def)
  from c 1 2 3 show ?thesis by blast
qed

theorem extensionless_files_go_to_underscore_folder_witness:
  "wf_fs (fsys \<lparr>fsys = notes_fs, out = []\<rparr>)
   \<and> is_dir (fsys \<lparr>fsys = notes_fs, out = []\<rparr>) []
   \<and> folders_free (fsys \<lparr>fsys = notes_fs, out = []\<rparr>) []
   \<and> [''notes''] \<in> set (children (fsys \<lparr>fsys = notes_fs, out = []\<rparr>) [])
   \<and> is_file (fsys \<lparr>fsys = notes_fs, out = []\<rparr>) [''notes'']
   \<and> path_suffix (path_name [''notes'']) = []
   \<and> categorize_files_by_type \<lparr>fsys = notes_fs, out = []\<rparr> [] =
       Inr (\<lparr>fsys = [([], Dir), ([''_2'', ''README''], File no_content),
                      ([''_2'', ''notes''], File plain), ([''CSV_1'', ''a.csv''], File plain),
                      ([''_2''], Dir), ([''CSV_1''], Dir)],
             out = [CategorizingFiles [], CreatingFolder [''_2''],
                    MovingFile [''README''] [''_2''], MovingFile [''notes''] [''_2''],
                    CreatingFolder [''CSV_1''], MovingFile [''a.csv''] [''CSV_1''],
                    FileTypesFound [[], ''.csv'']]\<rparr>, [[], ''.csv''])
   \<and> (\<exists>w' file_types.
         categorize_files_by_type \<lparr>fsys = notes_fs, out = []\<rparr> [] = Inr (w', file_types)
         \<and> [] \<in> set file_types
         \<and> is_dir (fsys w') [''_2'']
         \<and> map_of (fsys w') [''_2'', ''notes''] = Some (File plain)
         \<and> \<not> path_exists (fsys w') [''notes''])"
proof -
  let ?w = "\<lparr>fsys = notes_fs, out = []\<rparr>"
  have h1: "wf_fs (fsys ?w)" by (simp add: eval_defs2)
  have h2: "is_dir (fsys ?w) []" by (simp add: eval_defs2)
  have h3: "folders_free (fsys ?w) []"
    by (simp add: eval_defs2 str_nat.simps [of 2])
  have h4: "[''notes''] \<in> set (children (fsys ?w) [])" by (simp add: eval_defs2)
  have h5: "is_file (fsys ?w) [''notes'']" by (simp add: eval_defs2)
  have h6: "path_suffix (path_name [''notes'']) = []" by (simp add: eval_defs2)
  have r: "categorize_files_by_type ?w [] =
       Inr (\<lparr>fsys = [([], Dir), ([''_2'', ''README''], File no_content),
                      ([''_2'', ''notes''], File plain), ([''CSV_1'', ''a.csv''], File plain),
                      ([''_2''], Dir), ([''CSV_1''], Dir)],
             out = [CategorizingFiles [], CreatingFolder [''_2''],
                    MovingFile [''README''] [''_2''], MovingFile [''notes''] [''_2''],
                    CreatingFolder [''CSV_1''], MovingFile [''a.csv''] [''CSV_1''],
                    FileTypesFound [[], ''.csv'']]\<rparr>, [[], ''.csv''])"
    by (simp add: eval_defs2)
  have f4: "length (files_with_ext (fsys ?w) [] []) = 2" by (simp add: eval_defs2)
  have f5: "''_'' @ str_nat 2 = ''_2''" by (simp add: eval_defs2)
  have f6: "path_name [''notes''] = ''notes''" by (simp add: eval_defs2)
  have f7: "map_of (fsys ?w) [''notes''] = Some (File plain)" by (simp add: eval_defs2)
  from extensionless_files_go_to_underscore_folder [OF h1 h2 h3 h4 h5 h6]
  have "\<exists>w' file_types.
         categorize_files_by_type ?w [] = Inr (w', file_types)
         \<and> [] \<in> set file_types
         \<and> is_dir (fsys w') [''_2'']
         \<and> map_of (fsys w') [''_2'', ''notes''] = Some (File plain)
         \<and> \<not> path_exists (fsys w') [''notes'']"
    unfolding f4 f5 f6 f7 by auto
  with h1 h2 h3 h4 h5 h6 r show ?thesis by blast
qed

text \<open>
  The claim as it was stated fails for a file that bears the folder's name: alone in its
  directory, the extension-less file \<open>_1\<close> is "moved" onto itself and stays where it is;
  no folder \<open>_1\<close> is made.
\<close>

theorem file_named_like_its_folder_stays:
  "categorize_files_by_type \<lparr>fsys = lone_fs, out = []\<rparr> [] =
     Inr (\<lparr>fsys = [([], Dir), ([''_1''], File plain)],
           out = [CategorizingFiles [], MovingFile [''_1''] [''_1''], FileTypesFound [[]]]\<rparr>,
          [[]])
   \<and> path_suffix (path_name [''_1'']) = []
   \<and> is_file [([], Dir), ([''_1''], File plain)] [''_1'']
   \<and> \<not> is_dir [([], Dir), ([''_1''], File plain)] [''_1'']
   \<and> \<not> path_exists [([], Dir), ([''_1''], File plain)] [''_1'', ''_1'']"
  by (simp add: eval_defs2)

section \<open>The count update\<close>

lemma counted_name_nonempty: "counted_name name n \<noteq> []"
  by (simp add: counted_name_def)

lemma rename_dir_effect:
  assumes d: "distinct (map fst fs)"
      and s: "map_of fs s = Some Dir" "s \<noteq> []" "butlast s = tf"
      and tf: "map_of fs tf = Some Dir"
      and v: "vacant fs (tf @ [n])"
  shows "\<exists>fs'. os_rename fs s (tf @ [n]) = Inr fs' \<and> distinct (map fst fs') \<and>
           (\<forall>q. map_of fs' q =
              (if prefix (tf @ [n]) q then map_of fs (s @ drop (Suc (length tf)) q)
               else if prefix s q then None else map_of fs q))"
proof -
  let ?dst = "tf @ [n]"
  have free: "\<And>q. prefix ?dst q \<Longrightarrow> map_of fs q = None"
    using v by (simp add: vacant_def)
  have dn: "map_of fs ?dst = None" using free [of ?dst] by simp
  have ne: "s \<noteq> ?dst" using s(1) dn by auto
  have lens: "length s = Suc (length tf)" using s(2,3) by (rule length_child)
  have np: "\<not> prefix s ?dst"
  proof
    assume "prefix s ?dst"
    then have "s = ?dst" using lens prefix_equal_length [of s ?dst] by simp
    with ne show False by simp
  qed
  have m: "os_rename fs s ?dst = Inr (relocate s ?dst fs)"
    using s tf ne np dn by (simp add: os_rename_def)
  have l: "\<And>q. map_of (relocate s ?dst fs) q =
           (if prefix ?dst q then map_of fs (s @ drop (length ?dst) q)
            else if prefix s q then None else map_of fs q)"
    using free by (rule relocate_lookup)
  have "distinct (map fst (relocate s ?dst fs))"
    using free d by (rule relocate_distinct)
  with m l show ?thesis by simp
qed

lemma children_length_cong:
  assumes "distinct (map fst fs)" "distinct (map fst fs')"
      and "\<And>q. q \<noteq> [] \<Longrightarrow> butlast q = p \<Longrightarrow> (map_of fs' q \<noteq> None) = (map_of fs q \<noteq> None)"
  shows "length (children fs' p) = length (children fs p)"
proof -
  have "set (children fs' p) = set (children fs p)"
    using assms(3) by (auto simp: children_set)
  moreover have "distinct (children fs' p)" "distinct (children fs p)"
    using assms(1,2) by (simp_all add: children_distinct)
  ultimately show ?thesis by (metis distinct_card)
qed

lemma children_length_moved:
  assumes "distinct (map fst fs)" "distinct (map fst fs')"
      and "\<And>x. map_of fs' (T @ [x]) = map_of fs (s @ [x])"
  shows "length (children fs' T) = length (children fs s)"
proof -
  have e: "set (children fs' T) = (\<lambda>q. T @ [last q]) ` set (children fs s)"
  proof (intro set_eqI iffI)
    fix q assume "q \<in> set (children fs' T)"
    then have q: "q \<noteq> []" "butlast q = T" "map_of fs' q \<noteq> None"
      by (simp_all add: children_set)
    have qT: "T @ [last q] = q" using q(1,2) by (rule snoc_butlast)
    have "map_of fs (s @ [last q]) \<noteq> None" using assms(3) [of "last q"] q(3) qT by simp
    then have "s @ [last q] \<in> set (children fs s)" by (simp add: children_set)
    then have "T @ [last (s @ [last q])] \<in> (\<lambda>q. T @ [last q]) ` set (children fs s)"
      by (rule imageI)
    then show "q \<in> (\<lambda>q. T @ [last q]) ` set (children fs s)" using qT by simp
  next
    fix q assume "q \<in> (\<lambda>q. T @ [last q]) ` set (children fs s)"
    then obtain c where c: "c \<in> set (children fs s)" "q = T @ [last c]" by auto
    then have c1: "c \<noteq> []" "butlast c = s" "map_of fs c \<noteq> None"
      by (simp_all add: children_set)
    have "s @ [last c] = c" using c1(1,2) by (rule snoc_butlast)
    then have "map_of fs' (T @ [last c]) \<noteq> None" using assms(3) [of "last c"] c1(3) by simp
    then show "q \<in> set (children fs' T)" using c(2) by (simp add: children_set)
  qed
  have inj: "inj_on (\<lambda>q. T @ [last q]) (set (children fs s))"
  proof (rule inj_onI)
    fix x y assume x: "x \<in> set (children fs s)" and y: "y \<in> set (children fs s)"
      and "T @ [last x] = T @ [last y]"
    then have l: "last x = last y" by simp
    have "s @ [last x] = x" "s @ [last y] = y"
      using x y children_facts snoc_butlast by blast+
    with l show "x = y" by metis
  qed
  have "length (children fs' T) = card (set (children fs' T))"
    using assms(2) by (simp add: children_distinct distinct_card)
  also have "\<dots> = card (set (children fs s))" unfolding e using inj by (rule card_image)
  also have "\<dots> = length (children fs s)"
    using assms(1) by (simp add: children_distinct distinct_card)
  finally show ?thesis .
qed

lemma prefixes_same_length:
  "prefix a q \<Longrightarrow> prefix b q \<Longrightarrow> length a = length b \<Longrightarrow> a = b"
  by (auto simp: prefix_def append_eq_append_conv)

lemma is_dir_lookup: "is_dir fs p = (map_of fs p = Some Dir)"
  by (auto simp: is_dir_def split: option.splits entry.splits)

lemma rename_subfolders_effect:
  assumes d: "distinct (map fst (fsys w))"
      and tfD: "map_of (fsys w) tf = Some Dir"
      and snap: "distinct subs" "\<forall>s\<in>set subs. s \<noteq> [] \<and> butlast s = tf \<and> map_of (fsys w) s \<noteq> None"
      and fresh: "\<forall>s\<in>set subs. is_dir (fsys w) s \<longrightarrow> vacant (fsys w) (counted_path (fsys w) tf s)"
      and inj: "inj_on (counted_path (fsys w) tf) {s \<in> set subs. is_dir (fsys w) s}"
  shows "\<exists>w'. rename_subfolders w tf subs = Inr w' \<and> distinct (map fst (fsys w')) \<and>
     (\<forall>s\<in>set subs. is_dir (fsys w) s \<longrightarrow>
        (\<forall>r. map_of (fsys w') (counted_path (fsys w) tf s @ r) = map_of (fsys w) (s @ r))
        \<and> (\<forall>r. map_of (fsys w') (s @ r) = None))
     \<and> (\<forall>q. (\<forall>s\<in>set subs. is_dir (fsys w) s \<longrightarrow>
                 \<not> prefix (counted_path (fsys w) tf s) q \<and> \<not> prefix s q) \<longrightarrow>
              map_of (fsys w') q = map_of (fsys w) q)"
  using assms
proof (induction subs arbitrary: w)
  case Nil
  then show ?case by simp
next
  case (Cons s rest)
  let ?cur = "fsys w"
  let ?T = "counted_path ?cur tf s"
  have len: "\<And>x. x \<in> set (s # rest) \<Longrightarrow> length x = Suc (length tf)"
    using Cons.prems(4) length_child by blast
  have lenT: "\<And>x. length (counted_path ?cur tf x) = Suc (length tf)"
    by (simp add: counted_path_def)
  show ?case
  proof (cases "is_dir ?cur s")
    case False
    have step: "rename_subfolders w tf (s # rest) = rename_subfolders w tf rest"
      using False by simp
    have 1: "distinct rest" using Cons.prems(3) by simp
    have 2: "\<forall>x\<in>set rest. x \<noteq> [] \<and> butlast x = tf \<and> map_of ?cur x \<noteq> None"
      using Cons.prems(4) by simp
    have 3: "\<forall>x\<in>set rest. is_dir ?cur x \<longrightarrow> vacant ?cur (counted_path ?cur tf x)"
      using Cons.prems(5) by simp
    have 4: "inj_on (counted_path ?cur tf) {x \<in> set rest. is_dir ?cur x}"
      using Cons.prems(6) by (rule inj_on_subset) auto
    from Cons.IH [OF Cons.prems(1,2) 1 2 3 4] show ?thesis
      unfolding step using False by auto
  next
    case True
    then have sD: "map_of ?cur s = Some Dir" by (simp add: is_dir_lookup)
    have s1: "s \<noteq> []" "butlast s = tf" using Cons.prems(4) by simp_all
    have vT: "vacant ?cur ?T" using Cons.prems(5) True by simp
    have Tn: "\<And>q. prefix ?T q \<Longrightarrow> map_of ?cur q = None" using vT by (simp add: vacant_def)
    let ?w1 = "say (RenamingFolder s (counted_name (path_name s) (length (children ?cur s)))) w"
    from rename_dir_effect [OF Cons.prems(1) sD s1 Cons.prems(2)] vT
    obtain cur1 where
      m: "os_rename ?cur s ?T = Inr cur1" and d1: "distinct (map fst cur1)"
      and l1: "\<And>q. map_of cur1 q =
              (if prefix ?T q then map_of ?cur (s @ drop (Suc (length tf)) q)
               else if prefix s q then None else map_of ?cur q)"
      unfolding counted_path_def by blast
    let ?w2 = "?w1\<lparr>fsys := cur1\<rparr>"
    have step: "rename_subfolders w tf (s # rest) = rename_subfolders ?w2 tf rest"
      using True sD m
      by (simp add: iterdir_def Let_def pjoin_def counted_name_nonempty counted_path_def)
    have sT: "s \<noteq> ?T" using sD Tn [of ?T] by auto
    \<comment> \<open>what lies under another entry of the listing is untouched\<close>
    have other: "x \<noteq> s \<and> x \<noteq> ?T" if "x \<in> set rest" for x
    proof -
      have "x \<noteq> s" using that Cons.prems(3) by auto
      moreover have "map_of ?cur x \<noteq> None" using that Cons.prems(4) by simp
      then have "x \<noteq> ?T" using Tn [of ?T] by auto
      ultimately show ?thesis by simp
    qed
    have under: "map_of cur1 q = map_of ?cur q" if "x \<in> set rest" "prefix x q" for x q
    proof -
      have lx: "length x = Suc (length tf)" using that(1) len by simp
      have "\<not> prefix ?T q"
      proof
        assume "prefix ?T q"
        then have "?T = x" using that(2) lx lenT [of s] prefixes_same_length by metis
        with other [OF that(1)] show False by simp
      qed
      moreover have "\<not> prefix s q"
      proof
        assume "prefix s q"
        then have "s = x" using that(2) lx len [of s] prefixes_same_length [of s q x] by simp
        with other [OF that(1)] show False by simp
      qed
      ultimately show ?thesis using l1 [of q] by simp
    qed
    have same: "map_of cur1 x = map_of ?cur x" if "x \<in> set rest" for x
      using under [OF that, of x] by simp
    have dir1: "is_dir cur1 x = is_dir ?cur x" if "x \<in> set rest" for x
      using same [OF that] by (simp add: is_dir_lookup)
    have cnt: "length (children cur1 x) = length (children ?cur x)" if x: "x \<in> set rest" for x
    proof (rule children_length_cong [OF Cons.prems(1) d1])
      fix q assume "q \<noteq> []" "butlast q = x"
      then have "x @ [last q] = q" by (rule snoc_butlast)
      then have "prefix x q" by (metis prefixI)
      from under [OF x this] show "(map_of cur1 q \<noteq> None) = (map_of ?cur q \<noteq> None)" by simp
    qed
    have cp1: "counted_path cur1 tf x = counted_path ?cur tf x" if "x \<in> set rest" for x
      using cnt [OF that] by (simp add: counted_path_def)
    have Tx: "counted_path ?cur tf x \<noteq> ?T" if x: "x \<in> set rest" "is_dir ?cur x" for x
    proof
      assume "counted_path ?cur tf x = ?T"
      moreover have "x \<in> {x \<in> set (s # rest). is_dir ?cur x}" using x by simp
      moreover have "s \<in> {x \<in> set (s # rest). is_dir ?cur x}" using True by simp
      ultimately have "x = s" using Cons.prems(6) by (auto dest: inj_onD)
      with other [OF x(1)] show False by simp
    qed
    \<comment> \<open>the hypotheses for the rest of the listing\<close>
    have h_tf: "map_of (fsys ?w2) tf = Some Dir"
    proof -
      have "\<not> prefix ?T tf" using lenT [of s] prefix_length_le by fastforce
      moreover have "\<not> prefix s tf" using len [of s] prefix_length_le by fastforce
      ultimately show ?thesis using l1 [of tf] Cons.prems(2) by simp
    qed
    have h_d: "distinct (map fst (fsys ?w2))" using d1 by simp
    have h_dist: "distinct rest" using Cons.prems(3) by simp
    have h_snap: "\<forall>x\<in>set rest. x \<noteq> [] \<and> butlast x = tf \<and> map_of (fsys ?w2) x \<noteq> None"
      using Cons.prems(4) same by simp
    have h_fresh: "\<forall>x\<in>set rest. is_dir (fsys ?w2) x \<longrightarrow>
        vacant (fsys ?w2) (counted_path (fsys ?w2) tf x)"
    proof (intro ballI impI)
      fix x assume x: "x \<in> set rest" and "is_dir (fsys ?w2) x"
      then have xd: "is_dir ?cur x" using dir1 by simp
      then have v: "vacant ?cur (counted_path ?cur tf x)" using Cons.prems(5) x by simp
      have "vacant cur1 (counted_path ?cur tf x)"
        unfolding vacant_def
      proof (intro allI impI)
        fix q assume p: "prefix (counted_path ?cur tf x) q"
        have "\<not> prefix ?T q"
        proof
          assume "prefix ?T q"
          then have "?T = counted_path ?cur tf x"
            using p lenT prefixes_same_length by metis
          with Tx [OF x xd] show False by simp
        qed
        moreover have "map_of ?cur q = None" using v p by (simp add: vacant_def)
        ultimately show "map_of cur1 q = None" using l1 [of q] by simp
      qed
      then show "vacant (fsys ?w2) (counted_path (fsys ?w2) tf x)" using cp1 [OF x] by simp
    qed
    have h_inj: "inj_on (counted_path (fsys ?w2) tf) {x \<in> set rest. is_dir (fsys ?w2) x}"
    proof (rule inj_onI)
      fix x y assume x: "x \<in> {x \<in> set rest. is_dir (fsys ?w2) x}"
        and y: "y \<in> {x \<in> set rest. is_dir (fsys ?w2) x}"
        and e: "counted_path (fsys ?w2) tf x = counted_path (fsys ?w2) tf y"
      from x y have "x \<in> {x \<in> set (s # rest). is_dir ?cur x}" "y \<in> {x \<in> set (s # rest). is_dir ?cur x}"
        using dir1 by auto
      moreover have "counted_path ?cur tf x = counted_path ?cur tf y"
        using e x y cp1 by simp
      ultimately show "x = y" using Cons.prems(6) by (auto dest: inj_onD)
    qed
    from Cons.IH [OF h_d h_tf h_dist h_snap h_fresh h_inj] obtain w' where
      r: "rename_subfolders ?w2 tf rest = Inr w'" and dw: "distinct (map fst (fsys w'))"
      and A: "\<And>x r. x \<in> set rest \<Longrightarrow> is_dir (fsys ?w2) x \<Longrightarrow>
             map_of (fsys w') (counted_path (fsys ?w2) tf x @ r) = map_of (fsys ?w2) (x @ r)
             \<and> map_of (fsys w') (x @ r) = None"
      and B: "\<And>q. (\<forall>x\<in>set rest. is_dir (fsys ?w2) x \<longrightarrow>
                 \<not> prefix (counted_path (fsys ?w2) tf x) q \<and> \<not> prefix x q) \<Longrightarrow>
              map_of (fsys w') q = map_of (fsys ?w2) q"
      by blast
    have B': "map_of (fsys w') q = map_of cur1 q"
      if "\<And>x. x \<in> set rest \<Longrightarrow> is_dir ?cur x \<Longrightarrow>
                 \<not> prefix (counted_path ?cur tf x) q \<and> \<not> prefix x q" for q
      using B [of q] that dir1 cp1 by simp
    \<comment> \<open>the renamed folder itself\<close>
    have As: "map_of (fsys w') (?T @ r) = map_of ?cur (s @ r) \<and> map_of (fsys w') (s @ r) = None"
      for r
    proof
      have "map_of (fsys w') (?T @ r) = map_of cur1 (?T @ r)"
      proof (rule B')
        fix x assume x: "x \<in> set rest" "is_dir ?cur x"
        have "\<not> prefix (counted_path ?cur tf x) (?T @ r)"
        proof
          assume "prefix (counted_path ?cur tf x) (?T @ r)"
          moreover have "prefix ?T (?T @ r)" by simp
          ultimately have "counted_path ?cur tf x = ?T"
            using lenT prefixes_same_length by metis
          with Tx [OF x] show False by simp
        qed
        moreover have "\<not> prefix x (?T @ r)"
        proof
          assume "prefix x (?T @ r)"
          moreover have "prefix ?T (?T @ r)" by simp
          ultimately have "x = ?T"
            using lenT [of s] len [of x] x(1) prefixes_same_length [of x "?T @ r" ?T] by simp
          with other [OF x(1)] show False by simp
        qed
        ultimately show "\<not> prefix (counted_path ?cur tf x) (?T @ r) \<and> \<not> prefix x (?T @ r)"
          by simp
      qed
      also have "\<dots> = map_of ?cur (s @ r)" using l1 [of "?T @ r"] lenT [of s] by simp
      finally show "map_of (fsys w') (?T @ r) = map_of ?cur (s @ r)" .
    next
      have "map_of (fsys w') (s @ r) = map_of cur1 (s @ r)"
      proof (rule B')
        fix x assume x: "x \<in> set rest" "is_dir ?cur x"
        have "\<not> prefix (counted_path ?cur tf x) (s @ r)"
        proof
          assume "prefix (counted_path ?cur tf x) (s @ r)"
          moreover have "prefix s (s @ r)" by simp
          ultimately have "counted_path ?cur tf x = s"
            using lenT [of x] len [of s]
              prefixes_same_length [of "counted_path ?cur tf x" "s @ r" s] by simp
          moreover have "map_of ?cur (counted_path ?cur tf x) = None"
            using Cons.prems(5) x by (simp add: vacant_def)
          ultimately show False using sD by simp
        qed
        moreover have "\<not> prefix x (s @ r)"
        proof
          assume "prefix x (s @ r)"
          moreover have "prefix s (s @ r)" by simp
          ultimately have "x = s"
            using len [of x] len [of s] x(1) prefixes_same_length [of x "s @ r" s] by simp
          with other [OF x(1)] show False by simp
        qed
        ultimately show "\<not> prefix (counted_path ?cur tf x) (s @ r) \<and> \<not> prefix x (s @ r)"
          by simp
      qed
      moreover have "\<not> prefix ?T (s @ r)"
      proof
        assume "prefix ?T (s @ r)"
        moreover have "prefix s (s @ r)" by simp
        ultimately have "?T = s"
          using lenT [of s] len [of s] prefixes_same_length [of ?T "s @ r" s] by simp
        with sT show False by simp
      qed
      ultimately show "map_of (fsys w') (s @ r) = None" using l1 [of "s @ r"] by simp
    qed
    have Ax: "map_of (fsys w') (counted_path ?cur tf x @ r) = map_of ?cur (x @ r)
              \<and> map_of (fsys w') (x @ r) = None"
      if x: "x \<in> set rest" "is_dir ?cur x" for x r
    proof -
      have "is_dir (fsys ?w2) x" using x dir1 by simp
      from A [OF x(1) this, of r] have
        "map_of (fsys w') (counted_path ?cur tf x @ r) = map_of cur1 (x @ r)"
        "map_of (fsys w') (x @ r) = None"
        using cp1 [OF x(1)] by simp_all
      moreover have "map_of cur1 (x @ r) = map_of ?cur (x @ r)"
        using under [OF x(1), of "x @ r"] by simp
      ultimately show ?thesis by simp
    qed
    have Bq: "map_of (fsys w') q = map_of ?cur q"
      if "\<forall>x\<in>set (s # rest). is_dir ?cur x \<longrightarrow>
                 \<not> prefix (counted_path ?cur tf x) q \<and> \<not> prefix x q" for q
    proof -
      have "map_of (fsys w') q = map_of cur1 q" using that by (intro B') simp
      moreover have "\<not> prefix ?T q \<and> \<not> prefix s q" using that True by simp
      ultimately show ?thesis using l1 [of q] by simp
    qed
    have AA: "\<forall>x\<in>set (s # rest). is_dir ?cur x \<longrightarrow>
        (\<forall>r. map_of (fsys w') (counted_path ?cur tf x @ r) = map_of ?cur (x @ r))
        \<and> (\<forall>r. map_of (fsys w') (x @ r) = None)"
      using As Ax by auto
    have BB: "\<forall>q. (\<forall>x\<in>set (s # rest). is_dir ?cur x \<longrightarrow>
                 \<not> prefix (counted_path ?cur tf x) q \<and> \<not> prefix x q) \<longrightarrow>
              map_of (fsys w') q = map_of ?cur q"
      using Bq by blast
    have rr: "rename_subfolders w tf (s # rest) = Inr w'" using step r by simp
    show ?thesis by (intro exI [of _ w'] conjI rr dw AA BB)
  qed
qed

lemmas eval_defs3 = eval_defs2 names_free_def counted_path_def banked_fs_def dotted_fs_def

lemma update_subfolder_counts_effect:
  assumes wf: "wf_fs (fsys w)" and tf: "is_dir (fsys w) tf" and free: "names_free (fsys w) tf"
  shows "\<exists>w'. update_subfolder_counts w tf = Inr w' \<and> distinct (map fst (fsys w')) \<and>
     (\<forall>s\<in>set (children (fsys w) tf). is_dir (fsys w) s \<longrightarrow>
        (\<forall>r. map_of (fsys w') (counted_path (fsys w) tf s @ r) = map_of (fsys w) (s @ r))
        \<and> (\<forall>r. map_of (fsys w') (s @ r) = None))
     \<and> (\<forall>q. (\<forall>s\<in>set (children (fsys w) tf). is_dir (fsys w) s \<longrightarrow>
                 \<not> prefix (counted_path (fsys w) tf s) q \<and> \<not> prefix s q) \<longrightarrow>
              map_of (fsys w') q = map_of (fsys w) q)"
proof -
  let ?fs = "fsys w"
  let ?w0 = "say (UpdatingSubfolderCounts tf) w"
  let ?subs = "children ?fs tf"
  have d: "distinct (map fst (fsys ?w0))" using wf by (simp add: wf_fs_def)
  have tfD: "map_of (fsys ?w0) tf = Some Dir" using tf by (simp add: is_dir_lookup)
  have 1: "distinct ?subs" using d by (simp add: children_distinct)
  have 2: "\<forall>s\<in>set ?subs. s \<noteq> [] \<and> butlast s = tf \<and> map_of (fsys ?w0) s \<noteq> None"
    by (simp add: children_set)
  have 3: "\<forall>s\<in>set ?subs. is_dir (fsys ?w0) s \<longrightarrow>
             vacant (fsys ?w0) (counted_path (fsys ?w0) tf s)"
  proof (intro ballI impI)
    fix s assume "s \<in> set ?subs" "is_dir (fsys ?w0) s"
    then have "map_of ?fs (counted_path ?fs tf s) = None"
      using free by (simp add: names_free_def list_all_iff path_exists_def)
    with wf have "vacant ?fs (counted_path ?fs tf s)" by (rule wf_vacant)
    then show "vacant (fsys ?w0) (counted_path (fsys ?w0) tf s)" by simp
  qed
  have 4: "inj_on (counted_path (fsys ?w0) tf) {s \<in> set ?subs. is_dir (fsys ?w0) s}"
  proof -
    have "distinct (map (counted_path ?fs tf) (filter (is_dir ?fs) ?subs))"
      using free by (simp add: names_free_def)
    then have "inj_on (counted_path ?fs tf) (set (filter (is_dir ?fs) ?subs))"
      unfolding distinct_map by blast
    then show ?thesis by simp
  qed
  have run: "update_subfolder_counts w tf = rename_subfolders ?w0 tf ?subs"
    using tfD by (simp add: update_subfolder_counts_def iterdir_def Let_def)
  from rename_subfolders_effect [OF d tfD 1 2 3 4] show ?thesis
    unfolding run by simp
qed

text \<open>
  What the update does where nothing is in its way.  In a well-formed file system, for a
  type folder in which the new names differ from each other and from the names of the
  entries there, the count update succeeds.  Every direct subdirectory is renamed to
  what \<open>counted_name\<close> makes of its name and of the number of entries in it; it keeps
  what it held, so that number is the count of entries inside it after the update; its
  old name is gone.  Every direct subdirectory after the update is one of these.
\<close>

lemma update_renames_every_subfolder:
  assumes "wf_fs (fsys w)" and "is_dir (fsys w) type_folder"
      and "names_free (fsys w) type_folder"
  shows "\<exists>w'. update_subfolder_counts w type_folder = Inr w'
           \<and> (\<forall>s\<in>set (children (fsys w) type_folder). is_dir (fsys w) s \<longrightarrow>
                 is_dir (fsys w')
                   (type_folder @
                      [takeWhile (\<lambda>c. c \<noteq> CHR ''_'') (path_stem (path_name s)) @ ''_'' @
                         str_nat (length (children (fsys w) s))])
                 \<and> length (children (fsys w')
                      (type_folder @
                         [takeWhile (\<lambda>c. c \<noteq> CHR ''_'') (path_stem (path_name s)) @ ''_'' @
                            str_nat (length (children (fsys w) s))]))
                   = length (children (fsys w) s)
                 \<and> (\<forall>r. map_of (fsys w')
                          ((type_folder @
                              [takeWhile (\<lambda>c. c \<noteq> CHR ''_'') (path_stem (path_name s)) @ ''_'' @
                                 str_nat (length (children (fsys w) s))]) @ r)
                        = map_of (fsys w) (s @ r))
                 \<and> \<not> path_exists (fsys w') s)
           \<and> (\<forall>q\<in>set (children (fsys w') type_folder). is_dir (fsys w') q \<longrightarrow>
                 (\<exists>s\<in>set (children (fsys w) type_folder). is_dir (fsys w) s
                    \<and> path_name q =
                        takeWhile (\<lambda>c. c \<noteq> CHR ''_'') (path_stem (path_name s)) @ ''_'' @
                          str_nat (length (children (fsys w') q))))"
proof -
  let ?fs = "fsys w"
  let ?tf = "type_folder"
  have d: "distinct (map fst ?fs)" using assms(1) by (simp add: wf_fs_def)
  from update_subfolder_counts_effect [OF assms] obtain w' where
    run: "update_subfolder_counts w ?tf = Inr w'" and dw: "distinct (map fst (fsys w'))"
    and A: "\<And>s r. s \<in> set (children ?fs ?tf) \<Longrightarrow> is_dir ?fs s \<Longrightarrow>
              map_of (fsys w') (counted_path ?fs ?tf s @ r) = map_of ?fs (s @ r)
              \<and> map_of (fsys w') (s @ r) = None"
    and B: "\<And>q. (\<forall>s\<in>set (children ?fs ?tf). is_dir ?fs s \<longrightarrow>
                 \<not> prefix (counted_path ?fs ?tf s) q \<and> \<not> prefix s q) \<Longrightarrow>
              map_of (fsys w') q = map_of ?fs q"
    by blast
  have cp: "\<And>s. counted_path ?fs ?tf s =
              ?tf @ [takeWhile (\<lambda>c. c \<noteq> CHR ''_'') (path_stem (path_name s)) @ ''_'' @
                       str_nat (length (children ?fs s))]"
    by (simp add: counted_path_def counted_name_def)
  have one: "is_dir (fsys w') (counted_path ?fs ?tf s)
             \<and> length (children (fsys w') (counted_path ?fs ?tf s)) = length (children ?fs s)
             \<and> (\<forall>r. map_of (fsys w') (counted_path ?fs ?tf s @ r) = map_of ?fs (s @ r))
             \<and> \<not> path_exists (fsys w') s"
    if s: "s \<in> set (children ?fs ?tf)" "is_dir ?fs s" for s
  proof -
    have "map_of (fsys w') (counted_path ?fs ?tf s @ []) = map_of ?fs (s @ [])"
      using A [OF s] by blast
    then have 1: "is_dir (fsys w') (counted_path ?fs ?tf s)"
      using s(2) by (simp add: is_dir_lookup)
    have 2: "length (children (fsys w') (counted_path ?fs ?tf s)) = length (children ?fs s)"
    proof (rule children_length_moved [OF d dw])
      fix x show "map_of (fsys w') (counted_path ?fs ?tf s @ [x]) = map_of ?fs (s @ [x])"
        using A [OF s] by blast
    qed
    have "map_of (fsys w') (s @ []) = None" using A [OF s] by blast
    then have 3: "\<not> path_exists (fsys w') s" by (simp add: path_exists_def)
    from 1 2 3 A [OF s] show ?thesis by blast
  qed
  have two: "\<exists>s\<in>set (children ?fs ?tf). is_dir ?fs s
                    \<and> path_name q =
                        takeWhile (\<lambda>c. c \<noteq> CHR ''_'') (path_stem (path_name s)) @ ''_'' @
                          str_nat (length (children (fsys w') q))"
    if q: "q \<in> set (children (fsys w') ?tf)" "is_dir (fsys w') q" for q
  proof -
    have q1: "q \<noteq> []" "butlast q = ?tf" using q(1) children_facts by blast+
    have lenq: "length q = Suc (length ?tf)" using q1 by (rule length_child)
    have qD: "map_of (fsys w') q = Some Dir" using q(2) by (simp add: is_dir_lookup)
    have "\<exists>s\<in>set (children ?fs ?tf). is_dir ?fs s \<and> q = counted_path ?fs ?tf s"
    proof (rule ccontr)
      assume n: "\<not> (\<exists>s\<in>set (children ?fs ?tf). is_dir ?fs s \<and> q = counted_path ?fs ?tf s)"
      have nd: "\<And>s. s \<in> set (children ?fs ?tf) \<Longrightarrow> is_dir ?fs s \<Longrightarrow> q \<noteq> s"
      proof
        fix s assume s: "s \<in> set (children ?fs ?tf)" "is_dir ?fs s" and "q = s"
        then have "map_of (fsys w') (s @ []) = Some Dir" using qD by simp
        moreover have "map_of (fsys w') (s @ []) = None" using A [OF s] by blast
        ultimately show False by simp
      qed
      have "\<forall>s\<in>set (children ?fs ?tf). is_dir ?fs s \<longrightarrow>
                 \<not> prefix (counted_path ?fs ?tf s) q \<and> \<not> prefix s q"
      proof (intro ballI impI conjI)
        fix s assume s: "s \<in> set (children ?fs ?tf)" "is_dir ?fs s"
        show "\<not> prefix (counted_path ?fs ?tf s) q"
        proof
          assume "prefix (counted_path ?fs ?tf s) q"
          then have "counted_path ?fs ?tf s = q"
            using lenq prefix_equal_length [of "counted_path ?fs ?tf s" q]
            by (simp add: counted_path_def)
          with n s show False by blast
        qed
        show "\<not> prefix s q"
        proof
          assume "prefix s q"
          moreover have "length s = Suc (length ?tf)"
            using children_facts [OF s(1)] length_child by blast
          ultimately have "s = q" using lenq prefix_equal_length [of s q] by simp
          with nd [OF s] show False by simp
        qed
      qed
      from B [OF this] qD have "map_of ?fs q = Some Dir" by simp
      then have "q \<in> set (children ?fs ?tf)" "is_dir ?fs q"
        using q1 by (simp_all add: children_set is_dir_lookup)
      with nd show False by blast
    qed
    then obtain s where s: "s \<in> set (children ?fs ?tf)" "is_dir ?fs s"
      "q = counted_path ?fs ?tf s" by blast
    from one [OF s(1,2)] have "length (children (fsys w') q) = length (children ?fs s)"
      using s(3) by simp
    then have "path_name q =
                        takeWhile (\<lambda>c. c \<noteq> CHR ''_'') (path_stem (path_name s)) @ ''_'' @
                          str_nat (length (children (fsys w') q))"
      using s(3) by (simp add: cp path_name_def)
    with s show ?thesis by blast
  qed
  show ?thesis
    using run one two unfolding cp by blast
qed

lemma update_renames_every_subfolder_example:
  "wf_fs (fsys \<lparr>fsys = banked_fs, out = []\<rparr>)
   \<and> is_dir (fsys \<lparr>fsys = banked_fs, out = []\<rparr>) [''CSV_2'']
   \<and> names_free (fsys \<lparr>fsys = banked_fs, out = []\<rparr>) [''CSV_2'']
   \<and> update_subfolder_counts \<lparr>fsys = banked_fs, out = []\<rparr> [''CSV_2''] =
       Inr \<lparr>fsys = [([], Dir), ([''CSV_2''], Dir),
                    ([''CSV_2'', ''Chase_1'', ''statement_9988.csv''], File no_content),
                    ([''CSV_2'', ''random.csv''], File no_content),
                    ([''CSV_2'', ''Chase_1''], Dir)],
            out = [UpdatingSubfolderCounts [''CSV_2''],
                   RenamingFolder [''CSV_2'', ''Chase''] ''Chase_1'']\<rparr>
   \<and> (\<exists>w'. update_subfolder_counts \<lparr>fsys = banked_fs, out = []\<rparr> [''CSV_2''] = Inr w'
         \<and> is_dir (fsys w') [''CSV_2'', ''Chase_1'']
         \<and> length (children (fsys w') [''CSV_2'', ''Chase_1'']) = 1
         \<and> \<not> path_exists (fsys w') [''CSV_2'', ''Chase''])"
proof -
  let ?w = "\<lparr>fsys = banked_fs, out = []\<rparr>"
  let ?s = "[''CSV_2'', ''Chase'']"
  have h1: "wf_fs (fsys ?w)" by (simp add: eval_defs3)
  have h2: "is_dir (fsys ?w) [''CSV_2'']" by (simp add: eval_defs3)
  have h3: "names_free (fsys ?w) [''CSV_2'']" by (simp add: eval_defs3)
  have r: "update_subfolder_counts ?w [''CSV_2''] =
       Inr \<lparr>fsys = [([], Dir), ([''CSV_2''], Dir),
                    ([''CSV_2'', ''Chase_1'', ''statement_9988.csv''], File no_content),
                    ([''CSV_2'', ''random.csv''], File no_content),
                    ([''CSV_2'', ''Chase_1''], Dir)],
            out = [UpdatingSubfolderCounts [''CSV_2''],
                   RenamingFolder [''CSV_2'', ''Chase''] ''Chase_1'']\<rparr>"
    by (simp add: eval_defs3)
  have s1: "?s \<in> set (children (fsys ?w) [''CSV_2''])" by (simp add: eval_defs3)
  have s2: "is_dir (fsys ?w) ?s" by (simp add: eval_defs3)
  have s3: "length (children (fsys ?w) ?s) = 1" by (simp add: eval_defs3)
  have s4: "[''CSV_2''] @
              [takeWhile (\<lambda>c. c \<noteq> CHR ''_'') (path_stem (path_name ?s)) @ ''_'' @ str_nat 1]
            = [''CSV_2'', ''Chase_1'']"
    by (simp add: eval_defs3)
  from update_renames_every_subfolder [OF h1 h2 h3] obtain w' where
    c: "update_subfolder_counts ?w [''CSV_2''] = Inr w'"
    and a: "\<forall>s\<in>set (children (fsys ?w) [''CSV_2'']). is_dir (fsys ?w) s \<longrightarrow>
                 is_dir (fsys w')
                   ([''CSV_2''] @
                      [takeWhile (\<lambda>c. c \<noteq> CHR ''_'') (path_stem (path_name s)) @ ''_'' @
                         str_nat (length (children (fsys ?w) s))])
                 \<and> length (children (fsys w')
                      ([''CSV_2''] @
                         [takeWhile (\<lambda>c. c \<noteq> CHR ''_'') (path_stem (path_name s)) @ ''_'' @
                            str_nat (length (children (fsys ?w) s))]))
                   = length (children (fsys ?w) s)
                 \<and> (\<forall>r. map_of (fsys w')
                          (([''CSV_2''] @
                              [takeWhile (\<lambda>c. c \<noteq> CHR ''_'') (path_stem (path_name s)) @ ''_'' @
                                 str_nat (length (children (fsys ?w) s))]) @ r)
                        = map_of (fsys ?w) (s @ r))
                 \<and> \<not> path_exists (fsys w') s"
    by blast
  from bspec [OF a s1] s2 have
    "is_dir (fsys w') [''CSV_2'', ''Chase_1'']
     \<and> length (children (fsys w') [''CSV_2'', ''Chase_1'']) = 1
     \<and> \<not> path_exists (fsys w') ?s"
    unfolding s3 s4 by blast
  with c have "\<exists>w'. update_subfolder_counts ?w [''CSV_2''] = Inr w'
         \<and> is_dir (fsys w') [''CSV_2'', ''Chase_1'']
         \<and> length (children (fsys w') [''CSV_2'', ''Chase_1'']) = 1
         \<and> \<not> path_exists (fsys w') ?s"
    by blast
  with h1 h2 h3 r show ?thesis by blast
qed

text \<open>
  C7.  The claim fails on the code for a subfolder with a dot in its name.  The type
  folder \<open>CSV_1\<close> holds the folder of the bank \<open>U.S. Bank\<close>, with one file in it.  The
  name has no underscore, so the claim gives the folder the name \<open>U.S. Bank_1\<close>.  The
  update renames it to \<open>U.S_1\<close>: the new name is built from \<open>subfolder.stem\<close>, which
  cuts the name of the folder at its last dot, and no folder \<open>U.S. Bank_1\<close> exists
  afterwards.
\<close>

theorem update_takes_the_stem:
  "update_subfolder_counts \<lparr>fsys = dotted_fs, out = []\<rparr> [''CSV_1''] =
     Inr \<lparr>fsys = [([], Dir), ([''CSV_1''], Dir), ([''CSV_1'', ''U.S_1''], Dir),
                  ([''CSV_1'', ''U.S_1'', ''a.csv''], File no_content)],
          out = [UpdatingSubfolderCounts [''CSV_1''],
                 RenamingFolder [''CSV_1'', ''U.S. Bank''] ''U.S_1'']\<rparr>
   \<and> takeWhile (\<lambda>c. c \<noteq> CHR ''_'') ''U.S. Bank'' @ ''_'' @ str_nat 1 = ''U.S. Bank_1''
   \<and> \<not> path_exists [([], Dir), ([''CSV_1''], Dir), ([''CSV_1'', ''U.S_1''], Dir),
                      ([''CSV_1'', ''U.S_1'', ''a.csv''], File no_content)]
          [''CSV_1'', ''U.S. Bank_1'']"
  by (simp add: eval_defs3)

section \<open>Attribution: the first match and the move\<close>














text \<open>
  The same through \<open>main\<close>, from the folder \<open>in\<close> holding the one file \<open>Chase\<close>: the run
  completes, and the file is in \<open>in/_1\<close>.
\<close>

lemma main_leaves_the_namesake_in_its_type_folder:
  "main no_regex
     \<lparr>fsys = [([], Dir), ([''in''], Dir), ([''in'', ''Chase''], File no_content)], out = []\<rparr>
     [''in''] (Some [(''Chase'', chase)])
   = Inr \<lparr>fsys = [([], Dir), ([''in''], Dir), ([''in'', ''_1'', ''Chase''], File no_content),
                  ([''in'', ''_1''], Dir)],
          out = [LoadingJSON, CategorizingFiles [''in''], CreatingFolder [''in'', ''_1''],
                 MovingFile [''in'', ''Chase''] [''in'', ''_1''], FileTypesFound [[]],
                 AssociatingFiles [''in'', ''_1''],
                 MatchesBankByFilename [''in'', ''_1'', ''Chase''] ''Chase'',
                 MovingToBankFolder [''in'', ''_1'', ''Chase''] [''in'', ''_1'', ''Chase''],
                 UpdatingSubfolderCounts [''in'', ''_1''], Completed]\<rparr>"
  by (simp add: eval_defs)

text \<open>
  The other parts of the condition on the bank's subfolder.  Where the subfolder already
  holds an entry of the file's name, the move raises.  Where the path of the subfolder
  is a regular file, another file that matches the bank is renamed onto it and replaces
  it.  A bank whose name is empty has the type folder for its subfolder, where the
  name of the file is taken by the file itself, and the move raises.
\<close>

lemma taken_name_in_the_bank_folder_raises:
  "associate_file no_regex \<lparr>fsys = taken_fs, out = []\<rparr> [''CSV_2'']
     [''CSV_2'', ''statement_9988.csv''] [(''Chase'', chase)]
   = Inl (ShutilError,
          \<lparr>fsys = taken_fs,
           out = [MatchesAccountByFilename [''CSV_2'', ''statement_9988.csv''] ''Savings'' ''Chase'',
                  MovingToBankFolder [''CSV_2'', ''statement_9988.csv''] [''CSV_2'', ''Chase'']]\<rparr>)"
  by (simp add: eval_defs taken_fs_def)

lemma file_replaces_the_file_named_like_the_bank:
  "associate_file no_regex \<lparr>fsys = overwritten_fs, out = []\<rparr> [''_2'']
     [''_2'', ''Chase notes''] [(''Chase'', chase)]
   = Inr (\<lparr>fsys = [([], Dir), ([''_2''], Dir),
                    ([''_2'', ''Chase''], File \<lparr>csv_table = Some [], pdf_pages = None\<rparr>)],
           out = [MatchesBankByFilename [''_2'', ''Chase notes''] ''Chase'',
                  MovingToBankFolder [''_2'', ''Chase notes''] [''_2'', ''Chase'']]\<rparr>, True)"
  by (simp add: eval_defs overwritten_fs_def)

lemma bank_with_the_empty_name_raises:
  "associate_file no_regex \<lparr>fsys = sorted_fs, out = []\<rparr> [''CSV_2'']
     [''CSV_2'', ''random.csv''] [([], chase)]
   = Inl (ShutilError,
          \<lparr>fsys = sorted_fs,
           out = [MatchesBankByFilename [''CSV_2'', ''random.csv''] [],
                  MovingToBankFolder [''CSV_2'', ''random.csv''] [''CSV_2'']]\<rparr>)"
  by (simp add: eval_defs is_substr_Nil)

text \<open>
  A match by an account whose record has no \<open>Account_Name\<close> raises before any move.
\<close>

lemma match_without_account_name_raises:
  "associate_file no_regex \<lparr>fsys = sorted_fs, out = []\<rparr> [''CSV_2'']
     [''CSV_2'', ''statement_9988.csv'']
     [(''Chase'', chase\<lparr>Accounts := Some [savings\<lparr>Account_Name := None\<rparr>]\<rparr>)]
   = Inl (KeyError, \<lparr>fsys = sorted_fs, out = []\<rparr>)"
  by (simp add: eval_defs)

end
